theory Spec2Isabelle
  imports Complex_Main "HOL-Library.Word"
begin

section \<open>Conventions of the embedding\<close>

text \<open>
  The theory embeds the two source files of the thermostat bridge, \<^verbatim>\<open>sniffer.cpp\<close> (serial
  framing) and \<^verbatim>\<open>appSpecific.cpp\<close> (datapoint handlers, UI updates, schedule, ESP
  controller).

  \<^item> A byte (\<^verbatim>\<open>uint8_t\<close>, \<^verbatim>\<open>byte\<close>) is an \<open>8 word\<close>; \<^verbatim>\<open>int\<close>, \<^verbatim>\<open>int32_t\<close> and
    \<^verbatim>\<open>long\<close> (32 bits on the ESP32) are \<open>int\<close>, with the clamping of \<^verbatim>\<open>strtol\<close> and the
    two's complement reading of four bytes written out; \<^verbatim>\<open>uint32_t\<close> millisecond
    counters are \<open>32 word\<close>.
  \<^item> A C array is a store from index to element (\<open>nat \<Rightarrow> 'a\<close>), so that a read of a
    position that the current frame did not write returns what an earlier write left
    there, as in the source.
  \<^item> A C string is a \<open>string\<close> without its terminating NUL.
  \<^item> A \<^verbatim>\<open>float\<close> or \<^verbatim>\<open>double\<close> is the \<open>real\<close> it denotes. Every operation or
    conversion that produces one rounds its exact result to the nearest value of the type
    (\<open>to_float\<close>, \<open>to_double\<close>: 24 and 53 significant bits, a tie to the even one);
    comparisons are exact. Infinities and NaN are not represented.
  \<^item> Static and global variables are fields of one state record that every function
    takes and returns; what the code reads from the platform (clock, flags of the
    framework, macros of \<^verbatim>\<open>appGlobals.h\<close>) is a field of the record \<open>env\<close>.
  \<^item> What the code writes to a UART is appended to \<open>uartOut\<close>, what it publishes
    through \<^verbatim>\<open>wsJsonSend\<close> is appended to \<open>wsOut\<close>. Log lines are not modelled.
\<close>

type_synonym byte = "8 word"

section \<open>C library functions used by the source\<close>

definition isspace :: "char \<Rightarrow> bool" where
  "isspace c = (of_char c \<in> {32::nat, 9, 10, 11, 12, 13})"

definition isdigit :: "char \<Rightarrow> bool" where
  "isdigit c = (48 \<le> (of_char c :: nat) \<and> (of_char c :: nat) \<le> 57)"

definition digit_val :: "char \<Rightarrow> nat" where
  "digit_val c = of_char c - 48"

definition digit_chr :: "nat \<Rightarrow> char" where
  "digit_chr d = ''0123456789'' ! d"

text \<open>The decimal digits of a natural number, as \<^verbatim>\<open>printf\<close> writes them.\<close>

function show_nat :: "nat \<Rightarrow> string" where
  "show_nat n = (if n < 10 then [digit_chr n] else show_nat (n div 10) @ [digit_chr (n mod 10)])"
  by pat_completeness auto
termination
  by (relation "measure id") auto

declare show_nat.simps [simp del]

text \<open>\<^verbatim>\<open>%d\<close> of a 32-bit int.\<close>

definition show_int :: "int \<Rightarrow> string" where
  "show_int i = (if i < 0 then CHR ''-'' # show_nat (nat (- i)) else show_nat (nat i))"

text \<open>\<^verbatim>\<open>%u\<close> of a 32-bit int: the value read as unsigned.\<close>

definition show_u :: "int \<Rightarrow> string" where
  "show_u i = show_nat (nat (i mod 2 ^ 32))"

text \<open>\<^verbatim>\<open>%hhu\<close> and \<^verbatim>\<open>%hu\<close> of an int: the value converted to unsigned char / short.\<close>

definition show_hhu :: "int \<Rightarrow> string" where
  "show_hhu i = show_nat (nat (i mod 2 ^ 8))"

definition show_hu :: "int \<Rightarrow> string" where
  "show_hu i = show_nat (nat (i mod 2 ^ 16))"

text \<open>\<^verbatim>\<open>%02u\<close> of a byte.\<close>

definition show_02u :: "byte \<Rightarrow> string" where
  "show_02u b = (if unat b < 10 then CHR ''0'' # show_nat (unat b) else show_nat (unat b))"

text \<open>The nearest integer, a tie to the even one.\<close>

definition round_half_even :: "real \<Rightarrow> int" where
  "round_half_even x =
     (let f = \<lfloor>x\<rfloor>; d = x - of_int f
      in if d < 1 / 2 then f else if 1 / 2 < d then f + 1 else if even f then f else f + 1)"

text \<open>
  Binary floating point (IEEE 754, round to nearest, ties to even). \<open>binDigits n\<close> is the
  number of binary digits of \<open>n\<close>; \<open>binExp x\<close>, for \<open>x > 0\<close>, is the exponent \<open>k\<close> with
  \<open>pow2 k \<le> x < pow2 (k + 1)\<close>, where \<open>pow2 k\<close> is the power of 2 with the integer exponent
  \<open>k\<close>. \<open>roundBinary p emin x\<close> is the multiple of the unit in the last place nearest to
  \<open>x\<close>, for a format of \<open>p\<close> significant bits with least exponent \<open>emin\<close> (below
  \<open>pow2 emin\<close> the unit stays that of \<open>emin\<close>: the subnormal numbers). A result beyond the
  largest finite value of the format, which the hardware gives as an infinity, is not
  represented.
\<close>

function binDigits :: "nat \<Rightarrow> nat" where
  "binDigits n = (if n = 0 then 0 else Suc (binDigits (n div 2)))"
  by pat_completeness auto
termination
  by (relation "measure id") auto

declare binDigits.simps [simp del]

definition binExp :: "real \<Rightarrow> int" where
  "binExp x =
     (if 1 \<le> x then int (binDigits (nat \<lfloor>x\<rfloor>)) - 1
      else - int (binDigits (nat (\<lceil>1 / x\<rceil> - 1))))"

definition pow2 :: "int \<Rightarrow> real" where
  "pow2 k = (if 0 \<le> k then 2 ^ nat k else 1 / 2 ^ nat (- k))"

definition roundBinary :: "nat \<Rightarrow> int \<Rightarrow> real \<Rightarrow> real" where
  "roundBinary p emin x =
     (if x = 0 then 0
      else let u = pow2 (max (binExp \<bar>x\<bar>) emin - int p + 1)
           in of_int (round_half_even (x / u)) * u)"

text \<open>Conversion to \<^verbatim>\<open>float\<close> (binary32) and to \<^verbatim>\<open>double\<close> (binary64).\<close>

definition to_float :: "real \<Rightarrow> real" where
  "to_float = roundBinary 24 (- 126)"

definition to_double :: "real \<Rightarrow> real" where
  "to_double = roundBinary 53 (- 1022)"

text \<open>
  \<^verbatim>\<open>%0.1f\<close>: one decimal, the nearest tenth, a tie to the even tenth, sign first.
\<close>

definition show_f1 :: "real \<Rightarrow> string" where
  "show_f1 x =
     (let n = nat (round_half_even (\<bar>x\<bar> * 10));
          body = show_nat (n div 10) @ CHR ''.'' # [digit_chr (n mod 10)]
      in if x < 0 then CHR ''-'' # body else body)"

text \<open>A run of decimal digits, accumulated from the left.\<close>

fun parse_digits :: "nat \<Rightarrow> string \<Rightarrow> nat \<times> string" where
  "parse_digits acc [] = (acc, [])"
| "parse_digits acc (c # cs) =
     (if isdigit c then parse_digits (acc * 10 + digit_val c) cs else (acc, c # cs))"

definition parse_sign :: "string \<Rightarrow> bool \<times> string" where
  "parse_sign s =
     (case s of
        [] \<Rightarrow> (False, [])
      | c # cs \<Rightarrow> if c = CHR ''-'' then (True, cs) else if c = CHR ''+'' then (False, cs)
                else (False, s))"

definition LONG_MIN :: int where "LONG_MIN = - (2 ^ 31)"
definition LONG_MAX :: int where "LONG_MAX = 2 ^ 31 - 1"

text \<open>
  \<^verbatim>\<open>strtol(s, &end, 10)\<close>: white space, an optional sign, digits; the value is clamped to
  the range of \<^verbatim>\<open>long\<close>. The result is the value and the rest of the string at \<^verbatim>\<open>end\<close>;
  when there is no digit, nothing is consumed and the rest is \<open>s\<close> itself.
\<close>

definition strtol :: "string \<Rightarrow> int \<times> string" where
  "strtol s =
     (let (neg, s2) = parse_sign (dropWhile isspace s)
      in case s2 of
           [] \<Rightarrow> (0, s)
         | d # _ \<Rightarrow>
             if isdigit d
             then (let (n, rest) = parse_digits 0 s2;
                       v = (if neg then - int n else int n)
                   in (max LONG_MIN (min LONG_MAX v), rest))
             else (0, s))"

definition atoi :: "string \<Rightarrow> int" where
  "atoi s = fst (strtol s)"

text \<open>
  \<^verbatim>\<open>atof\<close> on the decimal notation: white space, an optional sign, digits, an optional
  point and digits; the result is the \<^verbatim>\<open>double\<close> nearest to the number written. The
  exponent, hexadecimal, \<^verbatim>\<open>inf\<close> and \<^verbatim>\<open>nan\<close> notations of \<^verbatim>\<open>strtod\<close> are not modelled.
\<close>

definition atof :: "string \<Rightarrow> real" where
  "atof s =
     (let (neg, s2) = parse_sign (dropWhile isspace s);
          (ip, s3) = parse_digits 0 s2;
          (fp, fl) = (case s3 of
                        [] \<Rightarrow> (0, 0)
                      | c # cs \<Rightarrow>
                          if c = CHR ''.''
                          then (let (f, r) = parse_digits 0 cs in (f, length cs - length r))
                          else (0, 0));
          v = real ip + real fp / 10 ^ fl
      in to_double (if neg then - v else v))"

text \<open>
  One \<^verbatim>\<open>%hhu\<close> conversion of \<^verbatim>\<open>sscanf\<close>: as \<^verbatim>\<open>strtoul\<close>, then cut to a byte. \<open>None\<close> when
  no digit is found.
\<close>

definition scan_hhu :: "string \<Rightarrow> (byte \<times> string) option" where
  "scan_hhu s =
     (let (neg, s2) = parse_sign (dropWhile isspace s)
      in case s2 of
           [] \<Rightarrow> None
         | d # _ \<Rightarrow>
             if isdigit d
             then (let (n, rest) = parse_digits 0 s2;
                       v = (if n > 2 ^ 32 - 1 then 2 ^ 32 - 1
                            else if neg then (2 ^ 32 - n) mod 2 ^ 32 else n)
                   in Some (of_nat v, rest))
             else None)"

text \<open>
  \<^verbatim>\<open>sscanf(value, "%hhu:%hhu", &hour, &mins)\<close>. The two targets are uninitialised locals:
  a target that is not assigned keeps the value it had (\<open>hour0\<close>, \<open>mins0\<close>).
\<close>

definition sscanf_hhu_hhu :: "string \<Rightarrow> byte \<Rightarrow> byte \<Rightarrow> byte \<times> byte" where
  "sscanf_hhu_hhu s hour0 mins0 =
     (case scan_hhu s of
        None \<Rightarrow> (hour0, mins0)
      | Some (h, r) \<Rightarrow>
          (case r of
             [] \<Rightarrow> (h, mins0)
           | c # cs \<Rightarrow>
               if c = CHR '':''
               then (case scan_hhu cs of None \<Rightarrow> (h, mins0) | Some (m, _) \<Rightarrow> (h, m))
               else (h, mins0)))"

text \<open>\<^verbatim>\<open>strstr(s, needle) != NULL\<close>.\<close>

fun strstr :: "string \<Rightarrow> string \<Rightarrow> bool" where
  "strstr [] needle = (needle = [])"
| "strstr (c # cs) needle = (take (length needle) (c # cs) = needle \<or> strstr cs needle)"

text \<open>\<^verbatim>\<open>s[i]\<close> of a C string: the terminating NUL at the end.\<close>

definition char_at :: "string \<Rightarrow> nat \<Rightarrow> byte" where
  "char_at s i = (if i < length s then of_char (s ! i) else 0)"

text \<open>Conversion of a float to a signed integer type: truncation toward zero.\<close>

definition trunc_real :: "real \<Rightarrow> int" where
  "trunc_real x = (if x < 0 then - \<lfloor>- x\<rfloor> else \<lfloor>x\<rfloor>)"

text \<open>The value of a bit pattern of \<open>w\<close> bits read as two's complement.\<close>

definition to_signed :: "nat \<Rightarrow> int \<Rightarrow> int" where
  "to_signed w x = (x + 2 ^ (w - 1)) mod 2 ^ w - 2 ^ (w - 1)"

section \<open>sniffer.cpp: the outbound encoder\<close>

text \<open>
  \<^verbatim>\<open>getNumber\<close>: the static \<^verbatim>\<open>endPtr\<close> is the unread rest of the message. The result is
  \<open>LONG_MIN\<close> when \<^verbatim>\<open>strtol\<close> consumed nothing.
\<close>

definition getNumber :: "string \<Rightarrow> int \<times> string" where
  "getNumber endPtr =
     (let (dataItem, endPtr') = strtol endPtr
      in if endPtr' = endPtr then (LONG_MIN, endPtr') else (dataItem, endPtr'))"

text \<open>The identifiers that \<^verbatim>\<open>prepUarts\<close> gives the two ports: 0 is the MCU, 1 the Wi-Fi module.\<close>

definition uartId :: "nat \<Rightarrow> char" where
  "uartId n = (if n = 0 then CHR ''M'' else CHR ''W'')"

datatype tuya_error = BadDestination | Overrun

text \<open>
  The data part of \<^verbatim>\<open>processTuyaMsg\<close>:
  \<^verbatim>\<open>while ((thisNum = getNumber(wsMsg)) != LONG_MIN) tuyaCmd[++idx] = (uint8_t)(thisNum & 0xFF);\<close>
\<close>

lemma parse_digits_length: "length (snd (parse_digits acc s)) \<le> length s"
  by (induction s arbitrary: acc) (auto intro: le_SucI)

lemma parse_digits_shorter:
  "isdigit d \<Longrightarrow> length (snd (parse_digits acc (d # s))) < Suc (length s)"
  using parse_digits_length [of "acc * 10 + digit_val d" s] by simp

lemma parse_sign_length: "length (snd (parse_sign s)) \<le> length s"
  by (cases s) (auto simp: parse_sign_def)

lemma strtol_rest: "snd (strtol s) = s \<or> length (snd (strtol s)) < length s"
proof -
  obtain neg s2 where ps: "parse_sign (dropWhile isspace s) = (neg, s2)"
    by (cases "parse_sign (dropWhile isspace s)")
  have "length s2 \<le> length (dropWhile isspace s)"
    using parse_sign_length [of "dropWhile isspace s"] ps by simp
  also have "\<dots> \<le> length s"
    by (rule length_dropWhile_le)
  finally have len: "length s2 \<le> length s" .
  show ?thesis
  proof (cases s2)
    case Nil
    with ps show ?thesis by (simp add: strtol_def)
  next
    case (Cons d ds)
    show ?thesis
    proof (cases "isdigit d")
      case False
      with ps Cons show ?thesis by (simp add: strtol_def)
    next
      case True
      have "length (snd (parse_digits 0 (d # ds))) < Suc (length ds)"
        using True by (rule parse_digits_shorter)
      with len Cons have "length (snd (parse_digits 0 s2)) < length s" by simp
      with ps Cons True show ?thesis
        by (auto simp: strtol_def split: prod.splits)
    qed
  qed
qed

lemma getNumber_shorter:
  "getNumber p = (v, p') \<Longrightarrow> v \<noteq> LONG_MIN \<Longrightarrow> length p' < length p"
  using strtol_rest [of p]
  by (auto simp: getNumber_def split: prod.splits if_splits)

function dataPart :: "string \<Rightarrow> nat \<Rightarrow> (nat \<Rightarrow> byte) \<Rightarrow> nat \<times> (nat \<Rightarrow> byte)" where
  "dataPart endPtr idx cmd =
     (let (thisNum, endPtr') = getNumber endPtr
      in if thisNum \<noteq> LONG_MIN
         then dataPart endPtr' (idx + 1) (cmd(idx + 1 := word_of_int thisNum))
         else (idx, cmd))"
  by pat_completeness auto
termination
  by (relation "measure (\<lambda>(endPtr, idx, cmd). length endPtr)")
     (auto dest: getNumber_shorter [OF sym])

declare dataPart.simps [simp del]

text \<open>
  \<^verbatim>\<open>tuyaCmd[++idx] = 0; for (int i = 0; i < idx; i++) tuyaCmd[idx] += tuyaCmd[i];\<close>
  (the argument \<open>idx\<close> is the index after the increment).
\<close>

definition checksum :: "nat \<Rightarrow> (nat \<Rightarrow> byte) \<Rightarrow> nat \<Rightarrow> byte" where
  "checksum idx cmd = fold (\<lambda>i c. c(idx := c idx + c i)) [0..<idx] (cmd(idx := 0))"

text \<open>
  \<^verbatim>\<open>processTuyaMsg\<close>, from the command number to the data part: whether the command
  carries a datapoint, the index of the last byte written, and the array. \<open>endPtr\<close> is
  the message after its first character.
\<close>

definition parseTuyaMsg :: "string \<Rightarrow> (nat \<Rightarrow> byte) \<Rightarrow> bool \<times> nat \<times> (nat \<Rightarrow> byte)" where
  "parseTuyaMsg endPtr cmd0 =
     (let (n3, p1) = getNumber endPtr;
          c1 = cmd0(3 := word_of_int n3);
          isDP = (c1 3 = 6 \<or> c1 3 = 7);
          (idx0, c3, p3) =
            (if isDP
             then (let (n6, p6) = getNumber p1;
                       (n7, p7) = getNumber p6;
                       c2 = c1(6 := word_of_int n6, 7 := word_of_int n7)
                   in if c2 7 = 2
                      then (let (intVal, p8) = getNumber p7
                            in (13, c2(13 := word_of_int intVal,
                                       12 := word_of_int (intVal div 2 ^ 8),
                                       11 := word_of_int (intVal div 2 ^ 16),
                                       10 := word_of_int (intVal div 2 ^ 24)), p8))
                      else (9, c2, p7))
             else (5, c1, p1));
          (idx, c4) = dataPart p3 idx0 c3
      in (isDP, idx, c4))"

text \<open>
  \<^verbatim>\<open>processTuyaMsg\<close>, "derive rest of tuya command": header, version, the two lengths
  and the checksum; the result is the \<open>idx + 2\<close> bytes that are written to the port.
\<close>

definition deriveTuyaMsg :: "nat \<Rightarrow> bool \<Rightarrow> nat \<Rightarrow> (nat \<Rightarrow> byte) \<Rightarrow> byte list" where
  "deriveTuyaMsg uartNum isDP idx c4 =
     (let c5 = c4(0 := 0x55, 1 := 0xaa, 2 := (if uartNum = 0 then 0x00 else 0x03),
                  4 := of_nat ((idx - 5) div 2 ^ 8), 5 := of_nat (idx - 5));
          c6 = (if isDP then c5(8 := of_nat ((idx - 9) div 2 ^ 8), 9 := of_nat (idx - 9))
                else c5)
      in map (checksum (idx + 1) c6) [0..<idx + 2])"

text \<open>
  The body of \<^verbatim>\<open>processTuyaMsg\<close> up to the write: the port and the bytes of the frame.
  \<open>cmd0\<close> is the content of the uninitialised local array \<^verbatim>\<open>tuyaCmd[BUFF_LEN]\<close>. The source
  does not check the index against \<^verbatim>\<open>BUFF_LEN\<close>; a message that would be written past the
  array is the result \<open>Overrun\<close>.
\<close>

definition buildTuyaMsg ::
    "nat \<Rightarrow> (nat \<Rightarrow> byte) \<Rightarrow> string \<Rightarrow> tuya_error + (nat \<times> byte list)" where
  "buildTuyaMsg buffLen cmd0 wsMsg =
     (if wsMsg = [] \<or> (hd wsMsg \<noteq> uartId 0 \<and> hd wsMsg \<noteq> uartId 1) then Inl BadDestination
      else
        let uartNum = (if hd wsMsg = uartId 0 then 0 else 1 :: nat);
            (isDP, idx, c4) = parseTuyaMsg (tl wsMsg) cmd0
        in if buffLen \<le> idx + 1 then Inl Overrun
           else Inr (uartNum, deriveTuyaMsg uartNum isDP idx c4))"

section \<open>The state of the program\<close>

text \<open>
  \<^verbatim>\<open>tuyaStruct mcuTuya\<close>: the struct is declared in \<^verbatim>\<open>appGlobals.h\<close>; these are the fields
  the two source files use.
\<close>

record tuyaStruct =
  tuyaCmd :: byte
  tuyaDP :: byte
  tuyaData :: "nat \<Rightarrow> byte"
  tuyaInt :: int

text \<open>
  The statics of \<^verbatim>\<open>processTuyaByte\<close> for one port (\<^verbatim>\<open>tuyaIdx[n]\<close>, \<^verbatim>\<open>haveHdr[n]\<close>,
  \<^verbatim>\<open>msgLen[n]\<close> and the buffer \<^verbatim>\<open>tuyaData[n]\<close>, here \<open>tuyaBuf\<close>).
\<close>

record port =
  tuyaIdx :: nat
  haveHdr :: bool
  msgLen :: nat
  tuyaBuf :: "nat \<Rightarrow> byte"

text \<open>
  The file-level and function-level statics of \<^verbatim>\<open>appSpecific.cpp\<close> (\<open>startTime\<close> is the
  static of \<^verbatim>\<open>checkSchedule\<close>, \<open>dpStartTime\<close> the one of \<^verbatim>\<open>processDP\<close>), \<^verbatim>\<open>mcuTuya\<close>, the
  reassembly state of the two ports, and the outputs.
\<close>

record app =
  gotHeartbeat :: bool
  heatingElapsed :: "32 word"
  currentTemp :: real
  alpha :: real
  drift :: int
  ESPcontroller :: bool
  tgtTemp :: real
  backLash :: real
  baseCal :: real
  heatingOn :: bool
  schedule :: "nat \<Rightarrow> nat \<Rightarrow> int"
  oldWifiStatus :: int
  sentTime :: bool
  currentSlot :: int
  slotDuration :: int
  startTime :: "32 word"
  changedSlot :: bool
  dpStartTime :: "32 word"
  slotCnt :: int
  mcuTuya :: tuyaStruct
  ports :: "nat \<Rightarrow> port"
  uartOut :: "(nat \<times> byte list) list"
  wsOut :: "(string \<times> string) list"
  overrun :: bool

text \<open>
  What the code reads from outside the two files: the macros \<^verbatim>\<open>USE_SNIFFER\<close> and
  \<^verbatim>\<open>BUFF_LEN\<close>, the globals \<^verbatim>\<open>configLoaded\<close> and \<^verbatim>\<open>timeSynchronized\<close> of the framework,
  \<^verbatim>\<open>millis()\<close>, the second of the day from \<^verbatim>\<open>gettimeofday\<close>/\<^verbatim>\<open>localtime_r\<close>, the Wi-Fi
  status, the message that \<^verbatim>\<open>strftime\<close> builds in \<^verbatim>\<open>sendLocalTime\<close>, and the contents of
  uninitialised locals (\<^verbatim>\<open>tuyaCmd\<close> in \<^verbatim>\<open>processTuyaMsg\<close>, \<^verbatim>\<open>hour\<close> and \<^verbatim>\<open>mins\<close> in
  \<^verbatim>\<open>updateAppStatus\<close>).
\<close>

record env =
  USE_SNIFFER :: bool
  BUFF_LEN :: nat
  configLoaded :: bool
  timeSynchronized :: bool
  millis :: "32 word"
  currentSecs :: int
  wifiConnected :: bool
  localTimeMsg :: string
  tuyaCmd0 :: "nat \<Rightarrow> byte"
  hour0 :: byte
  mins0 :: byte

definition TIME_SLOTS :: nat where "TIME_SLOTS = 8"
definition USED_SLOTS :: nat where "USED_SLOTS = 6"
definition SECS_IN_DAY :: int where "SECS_IN_DAY = 24 * 60 * 60"
definition TGT_TEMP :: nat where "TGT_TEMP = 4"
definition SECS_COL :: nat where "SECS_COL = 5"

text \<open>
  \<^verbatim>\<open>processTuyaMsg\<close>: the frame is written to the selected port. (The call of
  \<^verbatim>\<open>formatTuya\<close> that follows the write has \<^verbatim>\<open>isProcessed = false\<close> and only logs.)
\<close>

definition processTuyaMsg :: "env \<Rightarrow> string \<Rightarrow> app \<Rightarrow> app" where
  "processTuyaMsg e wsMsg st =
     (case buildTuyaMsg (BUFF_LEN e) (tuyaCmd0 e) wsMsg of
        Inl BadDestination \<Rightarrow> st
      | Inl Overrun \<Rightarrow> st\<lparr>overrun := True\<rparr>
      | Inr frame \<Rightarrow> st\<lparr>uartOut := uartOut st @ [frame]\<rparr>)"

section \<open>appSpecific.cpp\<close>

text \<open>\<^verbatim>\<open>wsJsonSend\<close>: the key and value published to the UI surface.\<close>

definition wsJsonSend :: "string \<Rightarrow> string \<Rightarrow> app \<Rightarrow> app" where
  "wsJsonSend keyStr valStr st = st\<lparr>wsOut := wsOut st @ [(keyStr, valStr)]\<rparr>"

definition sendWifiStatus :: "env \<Rightarrow> bool \<Rightarrow> app \<Rightarrow> app" where
  "sendWifiStatus e demanded st =
     (let newWifiStatus = (if wifiConnected e then 4 else 0 :: int)
      in if newWifiStatus \<noteq> oldWifiStatus st \<or> demanded
         then processTuyaMsg e (''M 3 '' @ show_int newWifiStatus)
                (st\<lparr>oldWifiStatus := newWifiStatus\<rparr>)
         else st)"

definition sendLocalTime :: "env \<Rightarrow> bool \<Rightarrow> app \<Rightarrow> app" where
  "sendLocalTime e demanded st =
     (if (timeSynchronized e \<and> \<not> sentTime st) \<or> demanded
      then (if timeSynchronized e
            then processTuyaMsg e (localTimeMsg e) (st\<lparr>sentTime := True\<rparr>)
            else processTuyaMsg e ''M 28 0 0 0 0 0 0 0 0'' st)
      else st)"

text \<open>
  The string that the flush of the slot table builds in \<^verbatim>\<open>updateAppStatus\<close>:
  \<^verbatim>\<open>"43 0 "\<close>, then \<^verbatim>\<open>"%hhu %hhu %hhu %hhu "\<close> for each slot, without the last space.
\<close>

definition slotStr :: "(nat \<Rightarrow> nat \<Rightarrow> int) \<Rightarrow> nat \<Rightarrow> string" where
  "slotStr sch i =
     show_hhu (sch i 0) @ '' '' @ show_hhu (sch i 1) @ '' '' @
     show_hhu (sch i 2) @ '' '' @ show_hhu (sch i 3) @ '' ''"

definition scheduleStr :: "(nat \<Rightarrow> nat \<Rightarrow> int) \<Rightarrow> string" where
  "scheduleStr sch = butlast (''43 0 '' @ concat (map (slotStr sch) [0..<TIME_SLOTS]))"

text \<open>
  \<^verbatim>\<open>updateAppStatus\<close>. \<open>fp\<close> is what the branch prints after \<^verbatim>\<open>"M 6 "\<close> (nothing when
  the branch prints nothing). \<^verbatim>\<open>fltVal\<close> is the \<^verbatim>\<open>double\<close> of \<^verbatim>\<open>atof\<close> converted to
  \<^verbatim>\<open>float\<close>, and \<^verbatim>\<open>fltVal * 10\<close> is a product of type \<^verbatim>\<open>float\<close>. A product or a
  conversion from float that leaves the range of its integer type (undefined in C) is
  modelled as the two's complement value of that width. The size of \<^verbatim>\<open>formatted\<close>
  (\<^verbatim>\<open>MAX_PWD_LEN * 2\<close>, not in the sources) is not modelled.
\<close>

definition updateAppStatus :: "env \<Rightarrow> string \<Rightarrow> string \<Rightarrow> app \<Rightarrow> app" where
  "updateAppStatus e variable value st =
     (if USE_SNIFFER e then st
      else
        let intVal = atoi value;
            fltVal = to_float (atof value);
            (fp, msgReady, st1) =
              (if variable = ''tgtTemp''
                 then (''2 2 '' @ show_int (to_signed 32 (intVal * 10)), True, st)
               else if variable = ''floorMax'' then (''107 2 '' @ show_int intVal, True, st)
               else if variable = ''tempSensor'' then (''25 4 '' @ show_u intVal, True, st)
               else if variable = ''progMode'' then (''4 4 '' @ show_u intVal, True, st)
               else if variable = ''frost'' then (''26 1 '' @ show_u intVal, True, st)
               else if variable = ''switchDisp'' then (''1 1 '' @ show_u intVal, True, st)
               else if variable = ''childLock'' then (''8 1 '' @ show_u intVal, True, st)
               else if variable = ''roomMax'' then (''21 2 '' @ show_int intVal, True, st)
               else if variable = ''tempCal''
                 then (''20 2 '' @ show_int (to_signed 32 (trunc_real (to_float (fltVal * 10)))),
                       \<not> ESPcontroller st, st\<lparr>baseCal := fltVal\<rparr>)
               else if variable = ''espCal'' then (''20 2 '' @ show_int intVal, True, st)
               else if variable = ''tempLash''
                 then (''105 2 '' @ show_int (to_signed 32 (trunc_real (to_float (fltVal * 10)))), True, st)
               else if variable = ''daySetting'' then (''42 4 '' @ show_u intVal, True, st)
               else if variable = ''backLight'' then (''41 4 '' @ show_u intVal, True, st)
               else if variable = ''doReset'' then (''31 1 '' @ show_u intVal, True, st)
               else if variable = ''doReverse'' then (''101 1 '' @ show_u intVal, True, st)
               else if strstr variable ''slotTime''
                 then (let slot = unat (char_at variable 8 - 0x30 - 1)
                       in if slot < TIME_SLOTS
                          then (let (hour, mins) = sscanf_hhu_hhu value (hour0 e) (mins0 e);
                                    row = (schedule st slot)
                                      (0 := uint hour, 1 := uint mins,
                                       SECS_COL := ((uint hour * 60) + uint mins) * 60)
                                in ([], False,
                                    st\<lparr>schedule := (schedule st)(slot := row),
                                       slotCnt := slotCnt st + 1\<rparr>))
                          else ([], False, st))
               else if strstr variable ''slotTemp''
                 then (let slot = unat (char_at variable 8 - 0x30 - 1);
                           temp = to_signed 16 (trunc_real (to_float (fltVal * 10)))
                       in if slot < TIME_SLOTS
                          then (let row = (schedule st slot)
                                      (2 := (temp div 2 ^ 8) mod 2 ^ 8, 3 := temp mod 2 ^ 8,
                                       4 := temp)
                                in ([], False,
                                    st\<lparr>schedule := (schedule st)(slot := row),
                                       slotCnt := slotCnt st + 1\<rparr>))
                          else ([], False, st))
               else if variable = ''alpha'' then ([], False, st\<lparr>alpha := fltVal\<rparr>)
               else if variable = ''drift'' then ([], False, st\<lparr>drift := intVal\<rparr>)
               else if variable = ''setCtrl''
                 then (''4 4 '' @ show_u (if intVal \<noteq> 0 then 0 else 1), True,
                       st\<lparr>ESPcontroller := (intVal \<noteq> 0)\<rparr>)
               else ([], False, st));
            (fp2, msgReady2, st2) =
              (if int TIME_SLOTS * 2 \<le> slotCnt st1
               then (scheduleStr (schedule st1), True, st1\<lparr>slotCnt := 0\<rparr>)
               else (fp, msgReady, st1))
        in if configLoaded e \<and> msgReady2 then processTuyaMsg e (''M 6 '' @ fp2) st2 else st2)"

text \<open>
  \<^verbatim>\<open>checkSchedule\<close>. The scan of the first call:
  \<^verbatim>\<open>while (schedule[currentSlot][SECS_COL] > currentSecs) { currentSlot--; if (currentSlot < 0) break; }\<close>
\<close>

function findSlot :: "(nat \<Rightarrow> nat \<Rightarrow> int) \<Rightarrow> int \<Rightarrow> int \<Rightarrow> int" where
  "findSlot sch secs slot =
     (if sch (nat slot) SECS_COL > secs
      then (if slot - 1 < 0 then slot - 1 else findSlot sch secs (slot - 1))
      else slot)"
  by pat_completeness auto
termination
  by (relation "measure (\<lambda>(sch, secs, slot). nat slot)") auto

declare findSlot.simps [simp del]

text \<open>
  The test \<^verbatim>\<open>millis() - startTime > slotDuration\<close> compares a \<^verbatim>\<open>uint32_t\<close> with an
  \<^verbatim>\<open>int32_t\<close>, which C converts to unsigned.
\<close>

definition slotElapsed :: "env \<Rightarrow> app \<Rightarrow> bool" where
  "slotElapsed e st = (millis e - startTime st > word_of_int (slotDuration st))"

text \<open>
  The two branches of \<^verbatim>\<open>checkSchedule\<close> that set the slot: the first call, and the
  advance to the next slot. \<open>slotDuration\<close> is in milliseconds; for seconds of the day
  below 86400 the products stay within \<^verbatim>\<open>int32_t\<close>.
\<close>

definition firstSlot :: "env \<Rightarrow> app \<Rightarrow> app" where
  "firstSlot e st =
     (let found = findSlot (schedule st) (currentSecs e) (int USED_SLOTS - 1);
          (slot, dur) =
            (if found < 0 \<or> found = int USED_SLOTS - 1
             then (int USED_SLOTS - 1,
                   (let d = schedule st 0 SECS_COL - currentSecs e
                    in if d < 0 then d + SECS_IN_DAY else d))
             else (found, schedule st (nat (found + 1)) SECS_COL - currentSecs e))
      in st\<lparr>currentSlot := slot, slotDuration := dur * 1000, changedSlot := True\<rparr>)"

definition nextSlot :: "app \<Rightarrow> app" where
  "nextSlot st =
     (let slot = (if int USED_SLOTS \<le> currentSlot st + 1 then 0 else currentSlot st + 1);
          dur = (if slot < int USED_SLOTS - 1 then schedule st (nat (slot + 1)) SECS_COL
                 else SECS_IN_DAY + schedule st 0 SECS_COL)
      in st\<lparr>currentSlot := slot,
            slotDuration := (dur - schedule st (nat slot) SECS_COL) * 1000,
            changedSlot := True\<rparr>)"

definition checkSchedule :: "env \<Rightarrow> app \<Rightarrow> app" where
  "checkSchedule e st =
     (if \<not> timeSynchronized e then st
      else
        let st1 = (if currentSlot st < 0 then firstSlot e st
                   else if slotElapsed e st then nextSlot st
                   else st)
        in if changedSlot st1
           then updateAppStatus e ''tgtTemp''
                  (show_f1 (to_float (to_double
                     (real_of_int (schedule st1 (nat (currentSlot st1)) TGT_TEMP) / 10))))
                  (st1\<lparr>changedSlot := False, startTime := millis e\<rparr>)
           else st1)"

text \<open>\<^verbatim>\<open>setSchedule\<close>: the slots of a datapoint-43 report, published to the UI.\<close>

definition setSchedule_slot :: "nat \<Rightarrow> app \<Rightarrow> app" where
  "setSchedule_slot i st =
     (let d = tuyaData (mcuTuya st);
          slotTemp = (uint (d (i * 4 + 2)) * 2 ^ 8 + uint (d (i * 4 + 3))) div 10
      in wsJsonSend (''slotTemp'' @ show_nat (i + 1)) (show_hu slotTemp)
           (wsJsonSend (''slotTime'' @ show_nat (i + 1))
              (show_02u (d (i * 4)) @ '':'' @ show_02u (d (i * 4 + 1))) st))"

definition setSchedule :: "app \<Rightarrow> app" where
  "setSchedule st = fold setSchedule_slot [0..<TIME_SLOTS] st"

text \<open>
  Modelled from the spec: \<^verbatim>\<open>smooth\<close> is declared in \<^verbatim>\<open>globals.h\<close> and defined outside the
  two source files; the spec gives \<open>smoothed \<leftarrow> \<alpha>\<cdot>floor + (1 - \<alpha>)\<cdot>smoothed\<close>. The value is
  assigned to a \<^verbatim>\<open>float\<close>; how the function rounds between its operations is not known,
  and the sum is rounded once here.
\<close>

definition smooth :: "real \<Rightarrow> real \<Rightarrow> real \<Rightarrow> real" where
  "smooth latestVal smoothedVal a = to_float (a * latestVal + (1 - a) * smoothedVal)"

text \<open>
  \<^verbatim>\<open>controlHeating\<close>. \<^verbatim>\<open>drift\<close> is an \<^verbatim>\<open>int\<close>, converted to \<^verbatim>\<open>float\<close> where it meets
  one; the sums, the differences and the products by 10 are of type \<^verbatim>\<open>float\<close>.
\<close>

definition controlHeating :: "env \<Rightarrow> real \<Rightarrow> app \<Rightarrow> app" where
  "controlHeating e mcuTemp st =
     (let calOn = to_float (baseCal st + to_float (of_int (drift st)));
          calOff = to_float (baseCal st - to_float (of_int (drift st)));
          floorTemp = to_float ((if heatingOn st then calOn else calOff) + mcuTemp);
          st1 = st\<lparr>currentTemp := smooth floorTemp (currentTemp st) (alpha st)\<rparr>
      in if heatingOn st1
         then (if currentTemp st1 > tgtTemp st1
               then updateAppStatus e ''espCal''
                      (show_int (to_signed 32 (trunc_real (to_float (calOn * 10))))) st1
               else st1)
         else (if to_float (currentTemp st1 + backLash st1) < tgtTemp st1
               then updateAppStatus e ''espCal''
                      (show_int (to_signed 32 (trunc_real (to_float (calOff * 10))))) st1
               else st1))"

text \<open>
  \<^verbatim>\<open>processDP\<close>, by datapoint id. \<open>floatTemp\<close> is \<^verbatim>\<open>(float)(mcuTuya.tuyaInt / 10.0)\<close>: the
  quotient is a \<^verbatim>\<open>double\<close>, converted to \<^verbatim>\<open>float\<close>.
\<close>

definition publishData0 :: "string \<Rightarrow> app \<Rightarrow> app" where
  "publishData0 keyStr st = wsJsonSend keyStr (show_nat (unat (tuyaData (mcuTuya st) 0))) st"

definition processDP :: "env \<Rightarrow> app \<Rightarrow> app" where
  "processDP e st =
     (let floatTemp = to_float (to_double (real_of_int (tuyaInt (mcuTuya st)) / 10));
          data0 = tuyaData (mcuTuya st) 0;
          dp = unat (tuyaDP (mcuTuya st))
      in if dp = 1
           then (let st1 = publishData0 ''switchDisp'' st
                 in if data0 \<noteq> 0 then sendWifiStatus e True (sendLocalTime e True st1) else st1)
         else if dp = 2
           then wsJsonSend ''tgtTemp'' (show_f1 floatTemp) (st\<lparr>tgtTemp := floatTemp\<rparr>)
         else if dp = 3
           then (let st1 = wsJsonSend ''rawTemp'' (show_f1 floatTemp) st;
                     st2 = (if ESPcontroller st1 then controlHeating e floatTemp st1
                            else st1\<lparr>currentTemp := floatTemp\<rparr>)
                 in wsJsonSend ''currTemp'' (show_f1 (currentTemp st2)) st2)
         else if dp = 4 then publishData0 ''progMode'' st
         else if dp = 5
           then (let st1 = (publishData0 ''outputOn'' st)\<lparr>heatingOn := (data0 \<noteq> 0)\<rparr>;
                     st2 = (if heatingOn st1 then st1\<lparr>dpStartTime := millis e\<rparr> else st1)
                 in if \<not> heatingOn st2 \<and> dpStartTime st2 > 0
                    then st2\<lparr>heatingElapsed := heatingElapsed st2 + (millis e - dpStartTime st2),
                            dpStartTime := 0\<rparr>
                    else st2)
         else if dp = 8 then publishData0 ''childLock'' st
         else if dp = 13 then publishData0 ''soundOn'' st
         else if dp = 16 then publishData0 ''fault'' st
         else if dp = 20
           then (if \<not> ESPcontroller st then wsJsonSend ''tempCal'' (show_f1 floatTemp) st
                 else st)
         else if dp = 21 then wsJsonSend ''roomMax'' (show_u (tuyaInt (mcuTuya st))) st
         else if dp = 25 then publishData0 ''tempSensor'' st
         else if dp = 26 then publishData0 ''frost'' st
         else if dp = 31 then (if data0 \<noteq> 0 then processTuyaMsg e ''M 8'' st else st)
         else if dp = 41 then publishData0 ''backLight'' st
         else if dp = 42 then publishData0 ''daySetting'' st
         else if dp = 43 then setSchedule st
         else if dp = 101 then publishData0 ''opReverse'' st
         else if dp = 105
           then wsJsonSend ''tempLash'' (show_f1 floatTemp) (st\<lparr>backLash := floatTemp\<rparr>)
         else if dp = 107 then wsJsonSend ''floorMax'' (show_u (tuyaInt (mcuTuya st))) st
         else st)"

definition doTuyaInit :: "env \<Rightarrow> app \<Rightarrow> app" where
  "doTuyaInit e st =
     processTuyaMsg e ''M 8''
       (if ESPcontroller st then processTuyaMsg e ''M 6 4 4 0'' st
        else processTuyaMsg e ''M 6 4 4 1'' st)"

definition processMCUcmd :: "env \<Rightarrow> app \<Rightarrow> app" where
  "processMCUcmd e st =
     (let c = unat (tuyaCmd (mcuTuya st))
      in if c = 0
           then (let st1 = st\<lparr>gotHeartbeat := True\<rparr>
                 in if tuyaData (mcuTuya st1) 0 = 0 then doTuyaInit e st1 else st1)
         else if c = 1 \<or> c = 2 \<or> c = 3 \<or> c = 4 then st
         else if c = 7 then processDP e st
         else if c = 28 then sendLocalTime e True st
         else st)"

section \<open>sniffer.cpp: the inbound decoder\<close>

text \<open>
  \<^verbatim>\<open>for (int y = i; y < tuyaDataLen - 1; y++) mcuTuya.tuyaData[y - i] = tuyaData[y];\<close>
\<close>

definition copyData :: "(nat \<Rightarrow> byte) \<Rightarrow> nat \<Rightarrow> nat \<Rightarrow> (nat \<Rightarrow> byte) \<Rightarrow> (nat \<Rightarrow> byte)" where
  "copyData src i n dst = fold (\<lambda>y d. d(y - i := src y)) [i..<n] dst"

text \<open>
  The four bytes at positions 10 to 13 as a signed 32-bit integer:
  \<^verbatim>\<open>(tuyaData[10] << 24) | (tuyaData[11] << 16) | (tuyaData[12] << 8) | tuyaData[13]\<close>.
\<close>

definition intVal_of :: "(nat \<Rightarrow> byte) \<Rightarrow> int" where
  "intVal_of d =
     to_signed 32 (uint (d 10) * 2 ^ 24 + uint (d 11) * 2 ^ 16 + uint (d 12) * 2 ^ 8 + uint (d 13))"

text \<open>
  One round of the loop of \<^verbatim>\<open>formatTuya\<close>, at index \<open>i\<close>: the flag \<^verbatim>\<open>DP\<close> and what
  is stored in \<^verbatim>\<open>mcuTuya\<close>. \<open>d\<close> is the whole receive buffer and \<open>len\<close> the length of
  the frame in it: the loop reads \<open>d\<close> at fixed positions whatever \<open>len\<close> is. The text
  built for the log is not modelled.
\<close>

definition formatTuya_at ::
    "(nat \<Rightarrow> byte) \<Rightarrow> nat \<Rightarrow> bool \<Rightarrow> nat \<Rightarrow> bool \<times> tuyaStruct \<Rightarrow> bool \<times> tuyaStruct" where
  "formatTuya_at d len isProcessed i = (\<lambda>(DP, m).
     if i = 3
     then (DP \<or> d 3 = 6 \<or> d 3 = 7,
           if isProcessed then m\<lparr>tuyaCmd := d 3, tuyaDP := d 6\<rparr> else m)
     else if DP
     then (if i = 6 then (DP, m)
           else if i = 7 then (DP, m)
           else if i = 10 \<and> i < len - 1
           then (DP,
                 if \<not> isProcessed then m
                 else if d 7 = 0 \<or> d 7 = 5
                   then m\<lparr>tuyaData := copyData d i (len - 1) (tuyaData m)\<rparr>
                 else if d 7 = 1 then m\<lparr>tuyaData := (tuyaData m)(0 := d i)\<rparr>
                 else if d 7 = 2 then m\<lparr>tuyaInt := intVal_of d\<rparr>
                 else if d 7 = 3
                   then m\<lparr>tuyaData := copyData d i (len - 1) (tuyaData m)\<rparr>
                 else if d 7 = 4 then m\<lparr>tuyaData := (tuyaData m)(0 := d i)\<rparr>
                 else m)
           else (DP, m))
     else (if i = 6 \<and> i < len - 1
           then (DP,
                 if \<not> isProcessed then m
                 else if d 3 = 1 then m\<lparr>tuyaData := copyData d i (len - 1) (tuyaData m)\<rparr>
                 else m\<lparr>tuyaData := copyData d i (len - 1) (tuyaData m)\<rparr>)
           else (DP, m)))"

definition formatTuya :: "env \<Rightarrow> (nat \<Rightarrow> byte) \<Rightarrow> nat \<Rightarrow> bool \<Rightarrow> app \<Rightarrow> app" where
  "formatTuya e d len isProcessed st =
     (let isP = (if USE_SNIFFER e then False else isProcessed)
      in st\<lparr>mcuTuya := snd (fold (formatTuya_at d len isP) [0..<len] (False, mcuTuya st))\<rparr>)"

text \<open>
  \<^verbatim>\<open>processTuyaByte\<close> for one port. \<open>storeByte\<close> is the part up to the length field
  (the byte is stored, the last two bytes are compared with the header while none has
  been seen, the length is read when six bytes are held); \<open>msgComplete\<close> is the test
  \<^verbatim>\<open>tuyaIdx == min(msgLen + 7, BUFF_LEN - 10)\<close>; \<open>resetPort\<close> the reset after a message.
  The two bytes \<^verbatim>\<open>(a << 8) | b\<close> are the number \<open>256 a + b\<close>.
\<close>

definition header :: nat where "header = 0x55aa"

definition storeByte :: "byte \<Rightarrow> port \<Rightarrow> port" where
  "storeByte tuyaByte p =
     (let buf = (tuyaBuf p)(tuyaIdx p := tuyaByte);
          idx = tuyaIdx p + 1;
          p1 = (if idx > 1 \<and> \<not> haveHdr p \<and>
                   unat (buf (idx - 2)) * 2 ^ 8 + unat (buf (idx - 1)) = header
                then p\<lparr>tuyaIdx := 2, haveHdr := True,
                       tuyaBuf := buf(0 := buf (idx - 2), 1 := buf (idx - 1))\<rparr>
                else p\<lparr>tuyaIdx := idx, tuyaBuf := buf\<rparr>)
      in if tuyaIdx p1 = 6 \<and> haveHdr p1
         then p1\<lparr>msgLen := unat (tuyaBuf p1 4) * 2 ^ 8 + unat (tuyaBuf p1 5)\<rparr>
         else p1)"

definition msgComplete :: "nat \<Rightarrow> port \<Rightarrow> bool" where
  "msgComplete buffLen p = (int (tuyaIdx p) = min (int (msgLen p) + 7) (int buffLen - 10))"

definition resetPort :: "nat \<Rightarrow> port \<Rightarrow> port" where
  "resetPort buffLen p =
     p\<lparr>tuyaIdx := 0, haveHdr := False,
       msgLen := nat ((int buffLen - 10) mod 2 ^ 16)\<rparr>"

definition processTuyaByte :: "env \<Rightarrow> nat \<Rightarrow> byte \<Rightarrow> app \<Rightarrow> app" where
  "processTuyaByte e uartNum tuyaByte st =
     (let p = storeByte tuyaByte (ports st uartNum)
      in if msgComplete (BUFF_LEN e) p
         then (let st1 = formatTuya e (tuyaBuf p) (tuyaIdx p) True st;
                   st2 = (if \<not> USE_SNIFFER e then processMCUcmd e st1 else st1)
               in st2\<lparr>ports := (ports st2)(uartNum := resetPort (BUFF_LEN e) p)\<rparr>)
         else st\<lparr>ports := (ports st)(uartNum := p)\<rparr>)"

text \<open>
  \<^verbatim>\<open>readUart(uartNum)\<close> on data: each byte read from a port goes to the decoder of the
  other port (\<^verbatim>\<open>uartNum ^ 0x01\<close>); in sniffer mode it is also written to the other port.
\<close>

definition readByte :: "env \<Rightarrow> nat \<Rightarrow> byte \<Rightarrow> app \<Rightarrow> app" where
  "readByte e uartNum tuyaByte st =
     (let otherUart = (if uartNum = 0 then 1 else 0 :: nat);
          st1 = (if USE_SNIFFER e then st\<lparr>uartOut := uartOut st @ [(otherUart, [tuyaByte])]\<rparr>
                 else st)
      in processTuyaByte e otherUart tuyaByte st1)"

definition readUart :: "env \<Rightarrow> nat \<Rightarrow> byte list \<Rightarrow> app \<Rightarrow> app" where
  "readUart e uartNum bytes st = fold (readByte e uartNum) bytes st"

text \<open>
  The state at start-up: the initial values of the statics (C zeroes those without an
  initialiser), both ports without a header, nothing written yet.
\<close>

definition initPort :: "nat \<Rightarrow> port" where
  "initPort buffLen =
     \<lparr>tuyaIdx = 0, haveHdr = False, msgLen = nat ((int buffLen - 10) mod 2 ^ 16),
      tuyaBuf = (\<lambda>_. 0)\<rparr>"

definition initApp :: "nat \<Rightarrow> app" where
  "initApp buffLen =
     \<lparr>gotHeartbeat = False, heatingElapsed = 0, currentTemp = 15, alpha = 1, drift = 3,
      ESPcontroller = False, tgtTemp = 19, backLash = 0, baseCal = 0, heatingOn = False,
      schedule = (\<lambda>_ _. 0), oldWifiStatus = - 1, sentTime = False, currentSlot = - 1,
      slotDuration = 0, startTime = 0, changedSlot = False, dpStartTime = 0, slotCnt = 0,
      mcuTuya = \<lparr>tuyaCmd = 0, tuyaDP = 0, tuyaData = (\<lambda>_. 0), tuyaInt = 0\<rparr>,
      ports = (\<lambda>_. initPort buffLen), uartOut = [], wsOut = [], overrun = False\<rparr>"

section \<open>Observing the reassembly of one port\<close>

text \<open>
  The bytes \<open>xs\<close> arriving at one port: the port after them, and the frames that
  \<^verbatim>\<open>processTuyaByte\<close> hands to \<^verbatim>\<open>formatTuya\<close> on the way, each as the bytes
  \<open>tuyaData[0 .. tuyaIdx - 1]\<close> of the buffer at that moment.
\<close>

fun feedPort :: "nat \<Rightarrow> byte list \<Rightarrow> port \<Rightarrow> port \<times> byte list list" where
  "feedPort buffLen [] p = (p, [])"
| "feedPort buffLen (x # xs) p =
     (let p1 = storeByte x p
      in if msgComplete buffLen p1
         then (let (p2, frames) = feedPort buffLen xs (resetPort buffLen p1)
               in (p2, map (tuyaBuf p1) [0..<tuyaIdx p1] # frames))
         else feedPort buffLen xs p1)"

text \<open>A port between two messages, as \<^verbatim>\<open>processTuyaByte\<close> leaves it after a reset.\<close>

definition atReset :: "nat \<Rightarrow> port \<Rightarrow> bool" where
  "atReset buffLen p = (tuyaIdx p = 0 \<and> \<not> haveHdr p \<and> msgLen p = buffLen - 10)"

text \<open>
  A frame on the wire, as the head of \<^verbatim>\<open>sniffer.cpp\<close> describes it: header, version,
  command, the length of the payload in two bytes, the payload and a checksum byte (which
  the decoder does not verify).
\<close>

definition tuyaFrame :: "byte \<Rightarrow> byte \<Rightarrow> byte list \<Rightarrow> byte \<Rightarrow> byte list" where
  "tuyaFrame ver cmd payload ck =
     [0x55, 0xaa, ver, cmd, of_nat (length payload div 2 ^ 8), of_nat (length payload)]
     @ payload @ [ck]"

text \<open>
  A slot table for the concrete runs: the six weekday slots start at the seconds
  21600, 30600, 32400, 45000, 59400 and 79200 of the day; every other entry is 0.
\<close>

definition weekdaySchedule :: "nat \<Rightarrow> nat \<Rightarrow> int" where
  "weekdaySchedule i c =
     (if c = SECS_COL \<and> i < 6 then [21600, 30600, 32400, 45000, 59400, 79200] ! i else 0)"

section \<open>Observing the schedule driver over several ticks\<close>

text \<open>
  \<^verbatim>\<open>checkSchedule\<close> called once per tick, each tick with its own clock readings: the
  states after the calls. \<open>advances\<close> says that every one of the calls finds the time
  synchronised and the current slot elapsed (\<^verbatim>\<open>millis() - startTime > slotDuration\<close>), so
  that it moves to the next slot.
\<close>

fun runSchedule :: "env list \<Rightarrow> app \<Rightarrow> app list" where
  "runSchedule [] st = []"
| "runSchedule (e # es) st = checkSchedule e st # runSchedule es (checkSchedule e st)"

fun advances :: "env list \<Rightarrow> app \<Rightarrow> bool" where
  "advances [] st = True"
| "advances (e # es) st =
     (timeSynchronized e \<and> slotElapsed e st \<and> advances es (checkSchedule e st))"

text \<open>
  The slot in force at second \<open>t\<close> of the day, for slots that start at \<open>sec 0 .. sec 5\<close>:
  slot \<open>i < 5\<close> from its start to the start of slot \<open>i + 1\<close>, slot 5 from its start through
  midnight to the start of slot 0.
\<close>

definition slotInForce :: "(nat \<Rightarrow> int) \<Rightarrow> int \<Rightarrow> nat \<Rightarrow> bool" where
  "slotInForce sec t i =
     (if i < 5 then sec i \<le> t \<and> t < sec (i + 1) else i = 5 \<and> (sec 5 \<le> t \<or> t < sec 0))"

text \<open>
  The time from the start of slot \<open>i\<close> to the start of the slot after it, which for slot 5
  is slot 0 of the next day.
\<close>

definition slotGap :: "(nat \<Rightarrow> int) \<Rightarrow> nat \<Rightarrow> int" where
  "slotGap sec i = (if i < 5 then sec (i + 1) - sec i else 86400 + sec 0 - sec 5)"

text \<open>
  The frame that sets the integer datapoint \<open>dp\<close> of the MCU to \<open>v\<close>: header, version 0,
  command 6, length 8, the datapoint, type 2 (int), length 4, the four bytes of \<open>v\<close> in two's
  complement from the most significant one, and the checksum, the sum of the bytes before
  it.
\<close>

definition dpIntFrame :: "byte \<Rightarrow> int \<Rightarrow> byte list" where
  "dpIntFrame dp v =
     (let body = [0x55, 0xaa, 0, 6, 0, 8, dp, 2, 0, 4, word_of_int (v div 2 ^ 24),
                  word_of_int (v div 2 ^ 16), word_of_int (v div 2 ^ 8), word_of_int v]
      in body @ [sum_list body])"

text \<open>
  An environment for the concrete runs below: bridge mode (\<^verbatim>\<open>USE_SNIFFER\<close> false), a
  buffer of 256 bytes, configuration loaded, time synchronised at 23:00:00.
\<close>

definition bridgeEnv :: env where
  "bridgeEnv =
     \<lparr>USE_SNIFFER = False, BUFF_LEN = 256, configLoaded = True, timeSynchronized = True,
      millis = 0, currentSecs = 82800, wifiConnected = False,
      localTimeMsg = ''M 28 1 26 10 30 23 00 00 5'', tuyaCmd0 = (\<lambda>_. 0),
      hour0 = 0, mins0 = 0\<rparr>"

text \<open>
  Six ticks for the concrete run of a cycle: the clock readings (\<^verbatim>\<open>millis()\<close>) at which the
  driver is called again, each one millisecond past the end of the slot then current, for
  the weekday table entered at 23:00:00 with \<^verbatim>\<open>millis() = 0\<close>.
\<close>

definition cycleTicks :: "env list" where
  "cycleTicks =
     map (\<lambda>m. bridgeEnv\<lparr>millis := m\<rparr>)
       [25200001, 34200002, 36000003, 48600004, 63000005, 82800006]"

section \<open>The outbound encoder: checksum and the frame of a target temperature\<close>

lemma checksum_fold:
  "k \<le> n \<Longrightarrow>
   fold (\<lambda>i c. c(n := c n + c i)) [0..<k] c0 =
   c0(n := c0 n + sum_list (map c0 [0..<k]))"
proof (induction k)
  case 0
  then show ?case by simp
next
  case (Suc k)
  then show ?case by (simp add: fun_upd_def fun_eq_iff add.assoc)
qed

lemma checksum_at: "checksum n cmd n = sum_list (map cmd [0..<n])"
  by (simp add: checksum_def checksum_fold)

lemma checksum_other: "i \<noteq> n \<Longrightarrow> checksum n cmd i = cmd i"
  by (simp add: checksum_def checksum_fold)

lemma unat_sum_list_byte:
  "unat (sum_list (ws :: byte list)) = sum_list (map unat ws) mod 256"
proof (induction ws)
  case Nil
  then show ?case by simp
next
  case (Cons w ws)
  then show ?case by (simp add: unat_word_ariths mod_add_right_eq)
qed

lemma buildTuyaMsg_Inr:
  assumes "buildTuyaMsg buffLen cmd0 wsMsg = Inr (uartNum, bs)"
  shows "\<exists>isDP idx c. bs = deriveTuyaMsg uartNum isDP idx c \<and> idx + 1 < buffLen"
  using assms
  unfolding buildTuyaMsg_def Let_def
  by (simp split: if_splits prod.splits add: not_le) blast+

lemma deriveTuyaMsg_checksum:
  assumes bs: "bs = deriveTuyaMsg uartNum isDP idx c4"
  shows "bs \<noteq> [] \<and>
         unat (bs ! (length bs - 1)) = sum_list (map unat (take (length bs - 1) bs)) mod 256"
proof -
  obtain c where bs: "bs = map (checksum (idx + 1) c) [0..<idx + 2]"
    using bs unfolding deriveTuyaMsg_def Let_def by blast
  have len: "length bs - 1 = idx + 1" by (simp add: bs)
  have last: "bs ! (idx + 1) = sum_list (map c [0..<idx + 1])"
    by (simp add: bs checksum_at del: upt_Suc)
  have "take (idx + 1) bs = map (checksum (idx + 1) c) [0..<idx + 1]"
    by (simp add: bs take_map del: upt_Suc)
  also have "\<dots> = map c [0..<idx + 1]"
    by (rule map_cong) (auto simp: checksum_other)
  finally have front: "take (idx + 1) bs = map c [0..<idx + 1]" .
  show ?thesis
    unfolding len last front
    by (simp add: bs unat_sum_list_byte del: upt_Suc)
qed

text \<open>
  C9. Whenever the encoder accepts a message (the destination is a port and the frame
  fits the array), \<^verbatim>\<open>processTuyaMsg\<close> writes one frame to that port, and the last byte
  of the frame, at position \<open>n = length bs - 1\<close>, is the sum of the \<open>n\<close> bytes before it
  modulo 256.
\<close>

theorem checksum_law:
  assumes "buildTuyaMsg (BUFF_LEN e) (tuyaCmd0 e) wsMsg = Inr (uartNum, bs)"
  shows "uartOut (processTuyaMsg e wsMsg st) = uartOut st @ [(uartNum, bs)] \<and>
         bs \<noteq> [] \<and>
         unat (bs ! (length bs - 1)) = sum_list (map unat (take (length bs - 1) bs)) mod 256"
proof -
  obtain isDP idx c where "bs = deriveTuyaMsg uartNum isDP idx c"
    using buildTuyaMsg_Inr [OF assms] by blast
  then have "bs \<noteq> [] \<and>
      unat (bs ! (length bs - 1)) = sum_list (map unat (take (length bs - 1) bs)) mod 256"
    by (rule deriveTuyaMsg_checksum)
  moreover have "uartOut (processTuyaMsg e wsMsg st) = uartOut st @ [(uartNum, bs)]"
    by (simp add: processTuyaMsg_def assms)
  ultimately show ?thesis by simp
qed

lemma getNumber_Nil: "getNumber [] = (LONG_MIN, [])"
  by code_simp

lemma dataPart_Nil: "dataPart [] idx c = (idx, c)"
  by (simp add: dataPart.simps getNumber_Nil)

lemma heartbeat_msg:
  "buildTuyaMsg 256 (\<lambda>_. 0) ''M 0'' = Inr (0, [0x55, 0xaa, 0, 0, 0, 0, 0xff])"
  by code_simp

theorem checksum_law_witness:
  "uartOut (processTuyaMsg bridgeEnv ''M 0'' (initApp 256)) =
     [(0, [0x55, 0xaa, 0, 0, 0, 0, 0xff])] \<and>
   unat ([0x55, 0xaa, 0, 0, 0, 0, 0xff :: byte] ! 6) =
     sum_list (map unat (take 6 [0x55, 0xaa, 0, 0, 0, 0, 0xff :: byte])) mod 256"
proof -
  have h: "buildTuyaMsg (BUFF_LEN bridgeEnv) (tuyaCmd0 bridgeEnv) ''M 0'' =
      Inr (0, [0x55, 0xaa, 0, 0, 0, 0, 0xff])"
    by (simp add: bridgeEnv_def heartbeat_msg)
  show ?thesis
    using checksum_law [OF h, of "initApp 256"] by (simp add: initApp_def)
qed

lemma getNumber_tgt:
  "getNumber '' 6 2 2 190'' = (6, '' 2 2 190'')"
  "getNumber '' 2 2 190'' = (2, '' 2 190'')"
  "getNumber '' 2 190'' = (2, '' 190'')"
  "getNumber '' 190'' = (190, [])"
  by code_simp+

lemma parse_tgt:
  "parseTuyaMsg '' 6 2 2 190'' c =
     (True, 13, c(3 := 6, 6 := 2, 7 := 2, 13 := 0xbe, 12 := 0, 11 := 0, 10 := 0))"
  by (simp add: parseTuyaMsg_def getNumber_tgt dataPart_Nil)

lemma derive_tgt:
  "deriveTuyaMsg 0 True 13 (c(3 := 6, 6 := 2, 7 := 2, 13 := 0xbe, 12 := 0, 11 := 0, 10 := 0))
   = [0x55, 0xaa, 0, 6, 0, 8, 2, 2, 0, 4, 0, 0, 0, 0xbe, 0xd3]"
  by (simp add: deriveTuyaMsg_def checksum_def upt_rec)

lemma build_tgt:
  "14 < b \<Longrightarrow> buildTuyaMsg b c ''M 6 2 2 190'' =
     Inr (0, [0x55, 0xaa, 0, 6, 0, 8, 2, 2, 0, 4, 0, 0, 0, 0xbe, 0xd3])"
  by (simp add: buildTuyaMsg_def uartId_def parse_tgt derive_tgt)

lemma atoi_19: "atoi ''19'' = 19"
  by code_simp

lemma show_190: "show_int (to_signed 32 190) = ''190''"
  by code_simp

text \<open>
  C1. In bridge mode with the configuration loaded and no flush of the slot table due
  (fewer than 16 slot edits counted, which every call of \<^verbatim>\<open>updateAppStatus\<close> leaves so),
  the UI update \<open>(tgtTemp, "19")\<close> writes to port 0, the MCU, exactly the bytes
  \<open>55 aa 00 06 00 08 02 02 00 04 00 00 00 be d3\<close>; \<open>d3\<close> is the checksum, the sum of the
  fourteen bytes before it modulo 256.
\<close>

theorem tgtTemp_19_frame:
  assumes "\<not> USE_SNIFFER e" and "configLoaded e" and "14 < BUFF_LEN e" and "slotCnt st < 16"
  shows "uartOut (updateAppStatus e ''tgtTemp'' ''19'' st) =
           uartOut st @ [(0, [0x55, 0xaa, 0, 6, 0, 8, 2, 2, 0, 4, 0, 0, 0, 0xbe, 0xd3])] \<and>
         unat (0xd3 :: byte) =
           sum_list (map unat [0x55, 0xaa, 0, 6, 0, 8, 2, 2, 0, 4, 0, 0, 0, 0xbe :: byte]) mod 256"
  using assms
  by (simp add: updateAppStatus_def atoi_19 show_190 TIME_SLOTS_def processTuyaMsg_def build_tgt)

theorem tgtTemp_19_frame_witness:
  "\<not> USE_SNIFFER bridgeEnv \<and> configLoaded bridgeEnv \<and> 14 < BUFF_LEN bridgeEnv \<and>
   slotCnt (initApp 256) < 16 \<and>
   uartOut (updateAppStatus bridgeEnv ''tgtTemp'' ''19'' (initApp 256)) =
     [(0, [0x55, 0xaa, 0, 6, 0, 8, 2, 2, 0, 4, 0, 0, 0, 0xbe, 0xd3])]"
  using tgtTemp_19_frame [of bridgeEnv "initApp 256"]
  by (simp add: bridgeEnv_def initApp_def)

section \<open>Reassembly: bytes before a header, and a frame\<close>

lemma header_iff:
  "(unat (a :: byte) * 256 + unat (b :: byte) = header) = (a = 0x55 \<and> b = 0xaa)"
proof -
  have "unat a < 2 ^ LENGTH(8)" and "unat b < 2 ^ LENGTH(8)"
    by (rule unsigned_less)+
  then have a: "unat a < 256" and b: "unat b < 256"
    by simp_all
  have ea: "(a = 0x55) = (unat a = 85)" and eb: "(b = 0xaa) = (unat b = 170)"
    by (simp_all add: word_unat_eq_iff)
  show ?thesis
    unfolding ea eb header_def using a b by arith
qed

lemma storeByte_hdr:
  assumes "haveHdr p"
  shows "haveHdr (storeByte x p)"
    and "tuyaIdx (storeByte x p) = tuyaIdx p + 1"
    and "tuyaBuf (storeByte x p) = (tuyaBuf p)(tuyaIdx p := x)"
    and "msgLen (storeByte x p) =
           (if tuyaIdx p = 5 then unat (tuyaBuf p 4) * 2 ^ 8 + unat x else msgLen p)"
  using assms by (simp_all add: storeByte_def Let_def)

lemma storeByte_nohdr:
  assumes "\<not> haveHdr p" and "tuyaIdx p = 0 \<or> tuyaBuf p (tuyaIdx p - 1) \<noteq> 0x55 \<or> x \<noteq> 0xaa"
  shows "\<not> haveHdr (storeByte x p)"
    and "tuyaIdx (storeByte x p) = tuyaIdx p + 1"
    and "tuyaBuf (storeByte x p) = (tuyaBuf p)(tuyaIdx p := x)"
    and "msgLen (storeByte x p) = msgLen p"
  using assms by (auto simp: storeByte_def Let_def header_iff)

lemma storeByte_sync:
  assumes "\<not> haveHdr p" and "0 < tuyaIdx p" and "tuyaBuf p (tuyaIdx p - 1) = 0x55"
  shows "haveHdr (storeByte 0xaa p)"
    and "tuyaIdx (storeByte 0xaa p) = 2"
    and "tuyaBuf (storeByte 0xaa p) 0 = 0x55"
    and "tuyaBuf (storeByte 0xaa p) 1 = 0xaa"
    and "msgLen (storeByte 0xaa p) = msgLen p"
  using assms by (auto simp: storeByte_def Let_def header_iff)


lemma msgComplete_nat:
  "msgComplete b p = (10 \<le> b \<and> tuyaIdx p = min (msgLen p + 7) (b - 10))"
  unfolding msgComplete_def by arith

lemma feedPort_append:
  "feedPort b (xs @ ys) p =
     (let (p1, fs) = feedPort b xs p; (p2, gs) = feedPort b ys p1 in (p2, fs @ gs))"
  by (induction xs arbitrary: p) (auto simp: Let_def split: prod.splits)

lemma feed_garbage:
  assumes "\<not> haveHdr p" and "msgLen p = b - 10"
    and "tuyaIdx p = 0 \<or> tuyaBuf p (tuyaIdx p - 1) \<noteq> 0x55"
    and "\<forall>x\<in>set g. x \<noteq> 0x55"
    and "tuyaIdx p + length g < b - 10"
  shows "\<exists>p'. feedPort b g p = (p', []) \<and> \<not> haveHdr p' \<and> msgLen p' = b - 10 \<and>
              tuyaIdx p' = tuyaIdx p + length g \<and>
              (tuyaIdx p' = 0 \<or> tuyaBuf p' (tuyaIdx p' - 1) \<noteq> 0x55) \<and>
              (\<forall>i\<ge>tuyaIdx p'. tuyaBuf p' i = tuyaBuf p i)"
  using assms
proof (induction g arbitrary: p)
  case Nil
  then show ?case by simp
next
  case (Cons x g)
  let ?p1 = "storeByte x p"
  have no: "tuyaIdx p = 0 \<or> tuyaBuf p (tuyaIdx p - 1) \<noteq> 0x55 \<or> x \<noteq> 0xaa"
    using Cons.prems(3) by blast
  note st = storeByte_nohdr [OF Cons.prems(1) no]
  have nc: "\<not> msgComplete b ?p1"
    using Cons.prems(2,5) unfolding msgComplete_nat st by simp
  have "\<exists>p'. feedPort b g ?p1 = (p', []) \<and> \<not> haveHdr p' \<and> msgLen p' = b - 10 \<and>
              tuyaIdx p' = tuyaIdx ?p1 + length g \<and>
              (tuyaIdx p' = 0 \<or> tuyaBuf p' (tuyaIdx p' - 1) \<noteq> 0x55) \<and>
              (\<forall>i\<ge>tuyaIdx p'. tuyaBuf p' i = tuyaBuf ?p1 i)"
  proof (rule Cons.IH)
    show "\<not> haveHdr ?p1" by (rule st)
    show "msgLen ?p1 = b - 10" using Cons.prems(2) by (simp add: st)
    show "tuyaIdx ?p1 = 0 \<or> tuyaBuf ?p1 (tuyaIdx ?p1 - 1) \<noteq> 0x55"
      using Cons.prems(4) by (simp add: st)
    show "\<forall>x\<in>set g. x \<noteq> 0x55" using Cons.prems(4) by simp
    show "tuyaIdx ?p1 + length g < b - 10" using Cons.prems(5) by (simp add: st)
  qed
  then obtain p' where p': "feedPort b g ?p1 = (p', [])" "\<not> haveHdr p'" "msgLen p' = b - 10"
      "tuyaIdx p' = tuyaIdx ?p1 + length g"
      "tuyaIdx p' = 0 \<or> tuyaBuf p' (tuyaIdx p' - 1) \<noteq> 0x55"
      "\<forall>i\<ge>tuyaIdx p'. tuyaBuf p' i = tuyaBuf ?p1 i"
    by blast
  have "feedPort b (x # g) p = (p', [])"
    using nc p'(1) by simp
  moreover have "tuyaIdx p' = tuyaIdx p + length (x # g)"
    using p'(4) by (simp add: st(2))
  moreover have "\<forall>i\<ge>tuyaIdx p'. tuyaBuf p' i = tuyaBuf p i"
    using p'(6) p'(4) by (simp add: st)
  ultimately show ?case
    using p'(2,3,5) by blast
qed

lemma feed_sync:
  assumes "\<not> haveHdr p" and "msgLen p = b - 10"
    and "tuyaIdx p = 0 \<or> tuyaBuf p (tuyaIdx p - 1) \<noteq> 0x55"
    and "tuyaIdx p + 1 < b - 10" and "2 < b - 10"
  shows "\<exists>p'. feedPort b [0x55, 0xaa] p = (p', []) \<and> haveHdr p' \<and> msgLen p' = b - 10 \<and>
              tuyaIdx p' = 2 \<and> tuyaBuf p' 0 = 0x55 \<and> tuyaBuf p' 1 = 0xaa \<and>
              (\<forall>i\<ge>tuyaIdx p + 2. tuyaBuf p' i = tuyaBuf p i)"
proof -
  let ?p1 = "storeByte 0x55 p"
  have no: "tuyaIdx p = 0 \<or> tuyaBuf p (tuyaIdx p - 1) \<noteq> 0x55 \<or> (0x55 :: byte) \<noteq> 0xaa"
    by simp
  note s1 = storeByte_nohdr [OF assms(1) no]
  have nc1: "\<not> msgComplete b ?p1"
    using assms(2,4) by (simp add: msgComplete_def s1)
  have pre: "\<not> haveHdr ?p1" "0 < tuyaIdx ?p1" "tuyaBuf ?p1 (tuyaIdx ?p1 - 1) = 0x55"
    by (simp_all add: s1)
  note s2 = storeByte_sync [OF pre]
  let ?p2 = "storeByte 0xaa ?p1"
  have nc2: "\<not> msgComplete b ?p2"
    using assms(2,5) by (simp add: msgComplete_def s2 s1)
  have stale: "\<forall>i\<ge>tuyaIdx p + 2. tuyaBuf ?p2 i = tuyaBuf p i"
    using assms(1) by (auto simp: storeByte_def Let_def header_iff)
  show ?thesis
    using nc1 nc2 stale s2(4) by (simp add: s2 s1 assms(2))
qed


lemma feed_lenfield:
  assumes "haveHdr p" and "tuyaIdx p = 2" and "msgLen p = b - 10" and "6 < b - 10"
  shows "\<exists>p'. feedPort b [v, c, lh, ll] p = (p', []) \<and> haveHdr p' \<and> tuyaIdx p' = 6 \<and>
              msgLen p' = unat lh * 2 ^ 8 + unat ll \<and>
              tuyaBuf p' = (tuyaBuf p)(2 := v, 3 := c, 4 := lh, 5 := ll)"
proof -
  let ?p1 = "storeByte v p"
  let ?p2 = "storeByte c ?p1"
  let ?p3 = "storeByte lh ?p2"
  let ?p4 = "storeByte ll ?p3"
  note s1 = storeByte_hdr [OF assms(1), of v]
  note s2 = storeByte_hdr [OF s1(1), of c]
  note s3 = storeByte_hdr [OF s2(1), of lh]
  note s4 = storeByte_hdr [OF s3(1), of ll]
  have idx: "tuyaIdx ?p1 = 3" "tuyaIdx ?p2 = 4" "tuyaIdx ?p3 = 5" "tuyaIdx ?p4 = 6"
    by (simp_all add: s1 s2 s3 s4 assms(2))
  have len: "msgLen ?p1 = b - 10" "msgLen ?p2 = b - 10" "msgLen ?p3 = b - 10"
    "msgLen ?p4 = unat lh * 2 ^ 8 + unat ll"
    by (simp_all add: s1 s2 s3 s4 assms(2,3))
  have nc: "\<not> msgComplete b ?p1" "\<not> msgComplete b ?p2" "\<not> msgComplete b ?p3"
    "\<not> msgComplete b ?p4"
    using assms(4) unfolding msgComplete_nat idx len by arith+
  have buf: "tuyaBuf ?p4 = (tuyaBuf p)(2 := v, 3 := c, 4 := lh, 5 := ll)"
    by (simp add: s1 s2 s3 s4 assms(2))
  show ?thesis
    using nc by (simp add: idx len buf s4(1))
qed

lemma feed_inflight:
  assumes "haveHdr p" and "6 \<le> tuyaIdx p"
    and "int (tuyaIdx p + length xs) < min (int (msgLen p) + 7) (int b - 10)"
  shows "\<exists>p'. feedPort b xs p = (p', []) \<and> haveHdr p' \<and> msgLen p' = msgLen p \<and>
              tuyaIdx p' = tuyaIdx p + length xs \<and>
              map (tuyaBuf p') [0..<tuyaIdx p'] = map (tuyaBuf p) [0..<tuyaIdx p] @ xs \<and>
              (\<forall>i\<ge>tuyaIdx p'. tuyaBuf p' i = tuyaBuf p i)"
  using assms
proof (induction xs arbitrary: p)
  case Nil
  then show ?case by simp
next
  case (Cons x xs)
  let ?p1 = "storeByte x p"
  note st = storeByte_hdr [OF Cons.prems(1), of x]
  have len: "msgLen ?p1 = msgLen p"
    using Cons.prems(2) by (simp add: st)
  have nc: "\<not> msgComplete b ?p1"
    using Cons.prems(3) unfolding msgComplete_nat st(2) len by simp arith
  have "\<exists>p'. feedPort b xs ?p1 = (p', []) \<and> haveHdr p' \<and> msgLen p' = msgLen ?p1 \<and>
              tuyaIdx p' = tuyaIdx ?p1 + length xs \<and>
              map (tuyaBuf p') [0..<tuyaIdx p'] = map (tuyaBuf ?p1) [0..<tuyaIdx ?p1] @ xs \<and>
              (\<forall>i\<ge>tuyaIdx p'. tuyaBuf p' i = tuyaBuf ?p1 i)"
  proof (rule Cons.IH)
    show "haveHdr ?p1" by (rule st)
    show "6 \<le> tuyaIdx ?p1" using Cons.prems(2) by (simp add: st)
    show "int (tuyaIdx ?p1 + length xs) < min (int (msgLen ?p1) + 7) (int b - 10)"
      using Cons.prems(3) by (simp add: st(2) len)
  qed
  then obtain p' where p': "feedPort b xs ?p1 = (p', [])" "haveHdr p'" "msgLen p' = msgLen ?p1"
    "tuyaIdx p' = tuyaIdx ?p1 + length xs"
    "map (tuyaBuf p') [0..<tuyaIdx p'] = map (tuyaBuf ?p1) [0..<tuyaIdx ?p1] @ xs"
    "\<forall>i\<ge>tuyaIdx p'. tuyaBuf p' i = tuyaBuf ?p1 i"
    by blast
  have pre: "map (tuyaBuf ?p1) [0..<tuyaIdx ?p1] = map (tuyaBuf p) [0..<tuyaIdx p] @ [x]"
    by (simp add: st)
  have stale: "\<forall>i\<ge>tuyaIdx p'. tuyaBuf p' i = tuyaBuf p i"
    using p'(6) p'(4) by (simp add: st)
  have buf: "map (tuyaBuf p') [0..<tuyaIdx p'] = map (tuyaBuf p) [0..<tuyaIdx p] @ x # xs"
    unfolding p'(5) pre by simp
  have "feedPort b (x # xs) p = (p', [])"
    using nc p'(1) by simp
  moreover have "msgLen p' = msgLen p"
    using p'(3) len by simp
  moreover have "tuyaIdx p' = tuyaIdx p + length (x # xs)"
    using p'(4) by (simp add: st(2))
  ultimately show ?case
    using p'(2) buf stale by blast
qed

lemma feed_last:
  assumes "haveHdr p" and "6 \<le> tuyaIdx p"
    and "int (tuyaIdx p + 1) = min (int (msgLen p) + 7) (int b - 10)"
  shows "feedPort b [x] p =
           (resetPort b (storeByte x p), [map (tuyaBuf p) [0..<tuyaIdx p] @ [x]])"
proof -
  note st = storeByte_hdr [OF assms(1), of x]
  have len: "msgLen (storeByte x p) = msgLen p"
    using assms(2) by (simp add: st)
  have "msgComplete b (storeByte x p)"
    using assms(3) unfolding msgComplete_nat st(2) len by arith
  then show ?thesis by (simp add: st)
qed


lemma length_bytes:
  "n < 2 ^ 16 \<Longrightarrow> unat (of_nat (n div 2 ^ 8) :: byte) * 2 ^ 8 + unat (of_nat n :: byte) = n"
  by (simp add: unat_of_nat)

text \<open>
  Bytes without \<open>0x55\<close>, then a frame up to its last payload byte: nothing is handed
  over, the buffer holds the frame from position 0, and the positions behind it keep
  what they held.
\<close>

lemma feed_frame_body:
  assumes p: "\<not> haveHdr p" "msgLen p = b - 10"
      "tuyaIdx p = 0 \<or> tuyaBuf p (tuyaIdx p - 1) \<noteq> 0x55"
    and g: "\<forall>x\<in>set g. x \<noteq> 0x55" "tuyaIdx p + length g + 1 < b - 10"
    and f: "length payload + 7 \<le> b - 10" "length payload < 2 ^ 16"
  shows "\<exists>q. feedPort b (g @ butlast (tuyaFrame v c payload ck)) p = (q, []) \<and>
             haveHdr q \<and> msgLen q = length payload \<and> tuyaIdx q = length payload + 6 \<and>
             map (tuyaBuf q) [0..<length payload + 6] = butlast (tuyaFrame v c payload ck) \<and>
             (\<forall>i. length payload + 6 \<le> i \<and> tuyaIdx p + length g + 2 \<le> i \<longrightarrow>
                  tuyaBuf q i = tuyaBuf p i)"
proof -
  let ?lh = "of_nat (length payload div 2 ^ 8) :: byte"
  let ?ll = "of_nat (length payload) :: byte"
  have split: "g @ butlast (tuyaFrame v c payload ck) =
      g @ [0x55, 0xaa] @ [v, c, ?lh, ?ll] @ payload"
    by (simp add: tuyaFrame_def butlast_append)
  obtain p1 where p1: "feedPort b g p = (p1, [])" "\<not> haveHdr p1" "msgLen p1 = b - 10"
      "tuyaIdx p1 = tuyaIdx p + length g"
      "tuyaIdx p1 = 0 \<or> tuyaBuf p1 (tuyaIdx p1 - 1) \<noteq> 0x55"
      "\<forall>i\<ge>tuyaIdx p1. tuyaBuf p1 i = tuyaBuf p i"
    using feed_garbage [OF p g(1)] g(2) by auto
  have "\<exists>p'. feedPort b [0x55, 0xaa] p1 = (p', []) \<and> haveHdr p' \<and> msgLen p' = b - 10 \<and>
              tuyaIdx p' = 2 \<and> tuyaBuf p' 0 = 0x55 \<and> tuyaBuf p' 1 = 0xaa \<and>
              (\<forall>i\<ge>tuyaIdx p1 + 2. tuyaBuf p' i = tuyaBuf p1 i)"
    using g(2) f(1) by (intro feed_sync p1) (simp_all add: p1(4))
  then obtain p2 where p2: "feedPort b [0x55, 0xaa] p1 = (p2, [])" "haveHdr p2"
      "msgLen p2 = b - 10" "tuyaIdx p2 = 2" "tuyaBuf p2 0 = 0x55" "tuyaBuf p2 1 = 0xaa"
      "\<forall>i\<ge>tuyaIdx p1 + 2. tuyaBuf p2 i = tuyaBuf p1 i"
    by blast
  have "\<exists>p'. feedPort b [v, c, ?lh, ?ll] p2 = (p', []) \<and> haveHdr p' \<and> tuyaIdx p' = 6 \<and>
              msgLen p' = unat ?lh * 2 ^ 8 + unat ?ll \<and>
              tuyaBuf p' = (tuyaBuf p2)(2 := v, 3 := c, 4 := ?lh, 5 := ?ll)"
    using f(1) by (intro feed_lenfield p2) simp
  then obtain p3 where p3: "feedPort b [v, c, ?lh, ?ll] p2 = (p3, [])" "haveHdr p3"
      "tuyaIdx p3 = 6" "msgLen p3 = unat ?lh * 2 ^ 8 + unat ?ll"
      "tuyaBuf p3 = (tuyaBuf p2)(2 := v, 3 := c, 4 := ?lh, 5 := ?ll)"
    by blast
  have len3: "msgLen p3 = length payload"
    unfolding p3(4) using f(2) by (rule length_bytes)
  have "\<exists>p'. feedPort b payload p3 = (p', []) \<and> haveHdr p' \<and> msgLen p' = msgLen p3 \<and>
              tuyaIdx p' = tuyaIdx p3 + length payload \<and>
              map (tuyaBuf p') [0..<tuyaIdx p'] = map (tuyaBuf p3) [0..<tuyaIdx p3] @ payload \<and>
              (\<forall>i\<ge>tuyaIdx p'. tuyaBuf p' i = tuyaBuf p3 i)"
    using f(1) by (intro feed_inflight p3) (simp_all add: p3(3) len3)
  then obtain p4 where p4: "feedPort b payload p3 = (p4, [])" "haveHdr p4"
      "msgLen p4 = msgLen p3" "tuyaIdx p4 = tuyaIdx p3 + length payload"
      "map (tuyaBuf p4) [0..<tuyaIdx p4] = map (tuyaBuf p3) [0..<tuyaIdx p3] @ payload"
      "\<forall>i\<ge>tuyaIdx p4. tuyaBuf p4 i = tuyaBuf p3 i"
    by blast
  have head: "map (tuyaBuf p3) [0..<tuyaIdx p3] = [0x55, 0xaa, v, c, ?lh, ?ll]"
    using p2(5,6) by (simp add: p3(3,5) upt_rec)
  have idx4: "tuyaIdx p4 = length payload + 6"
    by (simp add: p4(4) p3(3))
  have run: "feedPort b (g @ butlast (tuyaFrame v c payload ck)) p = (p4, [])"
    unfolding split
    by (simp only: feedPort_append p1(1) p2(1) p3(1) p4(1) Let_def prod.case append_Nil)
  have buf: "map (tuyaBuf p4) [0..<length payload + 6] = butlast (tuyaFrame v c payload ck)"
    using p4(5) unfolding idx4 head by (simp add: tuyaFrame_def butlast_append)
  have stale: "tuyaBuf p4 i = tuyaBuf p i"
    if "length payload + 6 \<le> i" and "tuyaIdx p + length g + 2 \<le> i" for i
  proof -
    have "tuyaBuf p4 i = tuyaBuf p3 i"
      using that(1) p4(6) by (simp add: idx4)
    also have "\<dots> = tuyaBuf p2 i"
      using that(1) by (simp add: p3(5))
    also have "\<dots> = tuyaBuf p1 i"
      using that(2) p2(7) by (simp add: p1(4))
    also have "\<dots> = tuyaBuf p i"
      using that(2) p1(6) by (simp add: p1(4))
    finally show ?thesis .
  qed
  show ?thesis
    using run p4(2) len3 p4(3) idx4 buf stale by auto
qed

text \<open>The last byte of the frame completes the message: the frame is handed over.\<close>

lemma feed_frame:
  assumes p: "\<not> haveHdr p" "msgLen p = b - 10"
      "tuyaIdx p = 0 \<or> tuyaBuf p (tuyaIdx p - 1) \<noteq> 0x55"
    and g: "\<forall>x\<in>set g. x \<noteq> 0x55" "tuyaIdx p + length g + 1 < b - 10"
    and f: "length payload + 7 \<le> b - 10" "length payload < 2 ^ 16"
  shows "\<exists>q. feedPort b (g @ tuyaFrame v c payload ck) p =
               (resetPort b q, [tuyaFrame v c payload ck])"
proof -
  obtain q where q: "feedPort b (g @ butlast (tuyaFrame v c payload ck)) p = (q, [])"
      "haveHdr q" "msgLen q = length payload" "tuyaIdx q = length payload + 6"
      "map (tuyaBuf q) [0..<length payload + 6] = butlast (tuyaFrame v c payload ck)"
    using feed_frame_body [OF assms, of v c ck] by blast
  have last: "feedPort b [ck] q =
      (resetPort b (storeByte ck q), [map (tuyaBuf q) [0..<tuyaIdx q] @ [ck]])"
    using f(1) by (intro feed_last q) (simp_all add: q(3,4))
  have fr: "tuyaFrame v c payload ck = butlast (tuyaFrame v c payload ck) @ [ck]"
    by (simp add: tuyaFrame_def butlast_append)
  have "feedPort b ((g @ butlast (tuyaFrame v c payload ck)) @ [ck]) p =
      (resetPort b (storeByte ck q), [butlast (tuyaFrame v c payload ck) @ [ck]])"
    by (simp only: feedPort_append [of b "g @ butlast (tuyaFrame v c payload ck)" "[ck]" p]
        q(1) last q(4) q(5) Let_def prod.case append_Nil)
  then show ?thesis
    using fr by (metis append_assoc)
qed

lemma feed_garbage_buf:
  assumes "\<not> haveHdr p" and "msgLen p = b - 10"
    and "tuyaIdx p = 0 \<or> tuyaBuf p (tuyaIdx p - 1) \<noteq> 0x55"
    and "\<forall>x\<in>set g. x \<noteq> 0x55"
    and "tuyaIdx p + length g < b - 10"
  shows "map (tuyaBuf (fst (feedPort b g p))) [0..<tuyaIdx p + length g] =
         map (tuyaBuf p) [0..<tuyaIdx p] @ g"
  using assms
proof (induction g arbitrary: p)
  case Nil
  then show ?case by simp
next
  case (Cons x g)
  let ?p1 = "storeByte x p"
  have no: "tuyaIdx p = 0 \<or> tuyaBuf p (tuyaIdx p - 1) \<noteq> 0x55 \<or> x \<noteq> 0xaa"
    using Cons.prems(3) by blast
  note st = storeByte_nohdr [OF Cons.prems(1) no]
  have nc: "\<not> msgComplete b ?p1"
    using Cons.prems(2,5) unfolding msgComplete_nat st by simp
  have "map (tuyaBuf (fst (feedPort b g ?p1))) [0..<tuyaIdx ?p1 + length g] =
        map (tuyaBuf ?p1) [0..<tuyaIdx ?p1] @ g"
  proof (rule Cons.IH)
    show "\<not> haveHdr ?p1" by (rule st)
    show "msgLen ?p1 = b - 10" using Cons.prems(2) by (simp add: st)
    show "tuyaIdx ?p1 = 0 \<or> tuyaBuf ?p1 (tuyaIdx ?p1 - 1) \<noteq> 0x55"
      using Cons.prems(4) by (simp add: st)
    show "\<forall>x\<in>set g. x \<noteq> 0x55" using Cons.prems(4) by simp
    show "tuyaIdx ?p1 + length g < b - 10" using Cons.prems(5) by (simp add: st)
  qed
  moreover have "map (tuyaBuf ?p1) [0..<tuyaIdx ?p1] = map (tuyaBuf p) [0..<tuyaIdx p] @ [x]"
    by (simp add: st)
  moreover have "feedPort b (x # g) p = feedPort b g ?p1"
    using nc by simp
  ultimately show ?case
    by (simp add: st(2))
qed

text \<open>
  Bytes without \<open>0x55\<close> that fill the buffer up to one byte below its limit: the \<open>0x55\<close>
  of the frame that follows reaches the limit, the junk and that byte are handed over as
  a message, and the rest of the frame, now without its first byte, is not recognised.
\<close>

lemma junk_to_limit:
  assumes p: "atReset b p" and g: "\<forall>x\<in>set g. x \<noteq> 0x55" "length g + 11 = b"
    and rest: "\<forall>x\<in>set rest. x \<noteq> 0x55" "length rest + 1 < b - 10" and b: "b < 2 ^ 16"
  shows "snd (feedPort b (g @ 0x55 # 0xaa # rest) p) = [g @ [0x55]]"
proof -
  have p': "\<not> haveHdr p" "msgLen p = b - 10"
      "tuyaIdx p = 0 \<or> tuyaBuf p (tuyaIdx p - 1) \<noteq> 0x55" "tuyaIdx p = 0"
    using p by (simp_all add: atReset_def)
  have lg: "tuyaIdx p + length g < b - 10"
    using g(2) p'(4) by simp
  obtain p1 where p1: "feedPort b g p = (p1, [])" "\<not> haveHdr p1" "msgLen p1 = b - 10"
      "tuyaIdx p1 = tuyaIdx p + length g"
      "tuyaIdx p1 = 0 \<or> tuyaBuf p1 (tuyaIdx p1 - 1) \<noteq> 0x55"
    using feed_garbage [OF p'(1,2,3) g(1) lg] by blast
  have buf1: "map (tuyaBuf p1) [0..<length g] = g"
    using feed_garbage_buf [OF p'(1,2,3) g(1) lg] by (simp add: p1(1) p'(4))
  let ?p2 = "storeByte 0x55 p1"
  have no: "tuyaIdx p1 = 0 \<or> tuyaBuf p1 (tuyaIdx p1 - 1) \<noteq> 0x55 \<or> (0x55 :: byte) \<noteq> 0xaa"
    by simp
  note s2 = storeByte_nohdr [OF p1(2) no]
  have idx2: "tuyaIdx ?p2 = length g + 1"
    by (simp add: s2 p1(4) p'(4))
  have c2: "msgComplete b ?p2"
    using g(2) unfolding msgComplete_nat s2 p1(3) p1(4) p'(4) by simp
  have buf2: "map (tuyaBuf ?p2) [0..<tuyaIdx ?p2] = g @ [0x55]"
    using buf1 by (simp add: s2 p1(4) p'(4))
  let ?p3 = "resetPort b ?p2"
  have p3: "\<not> haveHdr ?p3" "msgLen ?p3 = b - 10"
      "tuyaIdx ?p3 = 0 \<or> tuyaBuf ?p3 (tuyaIdx ?p3 - 1) \<noteq> 0x55"
    using b g(2) by (simp_all add: resetPort_def nat_mod_distrib)
  have r: "\<forall>x\<in>set (0xaa # rest). x \<noteq> 0x55"
    using rest(1) by simp
  have lr: "tuyaIdx ?p3 + length (0xaa # rest) < b - 10"
    using rest(2) by (simp add: resetPort_def)
  obtain p4 where p4: "feedPort b (0xaa # rest) ?p3 = (p4, [])"
    using feed_garbage [OF p3 r lr] by blast
  have "feedPort b (0x55 # 0xaa # rest) p1 = (p4, [g @ [0x55]])"
    using c2 p4 buf2 by simp
  then show ?thesis
    by (simp add: feedPort_append p1(1))
qed

text \<open>
  C3, as the code has it. (1) From its reset state, a port that receives fewer than
  \<open>BUFF_LEN - 11\<close> bytes none of which is \<open>0x55\<close> and then a frame (whose length fits the
  buffer limit \<open>BUFF_LEN - 10\<close>) hands over exactly that frame, the same as without the
  bytes before it, and is at reset again. (2) While a frame is in flight (header seen)
  every byte, \<open>0x55\<close> and \<open>0xaa\<close> included, is appended to it and nothing restarts;
  only while no header has been seen does \<open>0x55\<close> followed by \<open>0xaa\<close> drop what is
  buffered and restart at offset 2 with the header.
\<close>

theorem resync:
  assumes "atReset b p" and "\<forall>x\<in>set g. x \<noteq> 0x55" and "length g + 1 < b - 10"
    and "length payload + 7 \<le> b - 10" and "length payload < 2 ^ 16"
  shows "snd (feedPort b (g @ tuyaFrame v c payload ck) p) = [tuyaFrame v c payload ck] \<and>
         snd (feedPort b (g @ tuyaFrame v c payload ck) p) =
           snd (feedPort b (tuyaFrame v c payload ck) p) \<and>
         tuyaIdx (fst (feedPort b (g @ tuyaFrame v c payload ck) p)) = 0 \<and>
         \<not> haveHdr (fst (feedPort b (g @ tuyaFrame v c payload ck) p)) \<and>
         (haveHdr q \<longrightarrow>
            haveHdr (storeByte x q) \<and> tuyaIdx (storeByte x q) = tuyaIdx q + 1 \<and>
            tuyaBuf (storeByte x q) = (tuyaBuf q)(tuyaIdx q := x)) \<and>
         (\<not> haveHdr r \<and> 0 < tuyaIdx r \<and> tuyaBuf r (tuyaIdx r - 1) = 0x55 \<longrightarrow>
            haveHdr (storeByte 0xaa r) \<and> tuyaIdx (storeByte 0xaa r) = 2 \<and>
            tuyaBuf (storeByte 0xaa r) 0 = 0x55 \<and> tuyaBuf (storeByte 0xaa r) 1 = 0xaa)"
proof -
  have p: "\<not> haveHdr p" "msgLen p = b - 10" "tuyaIdx p = 0 \<or> tuyaBuf p (tuyaIdx p - 1) \<noteq> 0x55"
    and idx: "tuyaIdx p = 0"
    using assms(1) by (simp_all add: atReset_def)
  have g: "tuyaIdx p + length g + 1 < b - 10"
    using assms(3) by (simp add: idx)
  obtain q1 where q1: "feedPort b (g @ tuyaFrame v c payload ck) p =
      (resetPort b q1, [tuyaFrame v c payload ck])"
    using feed_frame [OF p assms(2) g assms(4,5)] by blast
  have e: "\<forall>x\<in>set ([] :: byte list). x \<noteq> 0x55" by simp
  have g0: "tuyaIdx p + length ([] :: byte list) + 1 < b - 10"
    using assms(4) by (simp add: idx)
  obtain q2 where q2: "feedPort b ([] @ tuyaFrame v c payload ck) p =
      (resetPort b q2, [tuyaFrame v c payload ck])"
    using feed_frame [OF p e g0 assms(4,5)] by blast
  have inflight: "haveHdr q \<longrightarrow>
      haveHdr (storeByte x q) \<and> tuyaIdx (storeByte x q) = tuyaIdx q + 1 \<and>
      tuyaBuf (storeByte x q) = (tuyaBuf q)(tuyaIdx q := x)"
    by (simp add: storeByte_hdr)
  have sync: "\<not> haveHdr r \<and> 0 < tuyaIdx r \<and> tuyaBuf r (tuyaIdx r - 1) = 0x55 \<longrightarrow>
      haveHdr (storeByte 0xaa r) \<and> tuyaIdx (storeByte 0xaa r) = 2 \<and>
      tuyaBuf (storeByte 0xaa r) 0 = 0x55 \<and> tuyaBuf (storeByte 0xaa r) 1 = 0xaa"
    using storeByte_sync [of r] by blast
  show ?thesis
    using q1 q2 inflight sync by (simp add: resetPort_def)
qed

lemma frame_3_0: "tuyaFrame 3 0 [1] 4 = [0x55, 0xaa, 3, 0, 0, 1, 1, 4]"
  by (simp add: tuyaFrame_def)

theorem resync_witness:
  "snd (feedPort 256 ([1, 2, 0xaa] @ [0x55, 0xaa, 3, 0, 0, 1, 1, 4]) (initPort 256)) =
     [[0x55, 0xaa, 3, 0, 0, 1, 1, 4]] \<and>
   snd (feedPort 256 [0x55, 0xaa, 3, 0, 0, 1, 1, 4] (initPort 256)) =
     [[0x55, 0xaa, 3, 0, 0, 1, 1, 4]] \<and>
   tuyaIdx (storeByte 0x55 ((initPort 256)\<lparr>tuyaIdx := 7, haveHdr := True\<rparr>)) = 8 \<and>
   tuyaIdx (storeByte 0xaa ((initPort 256)\<lparr>tuyaIdx := 7, tuyaBuf := (\<lambda>_. 0x55)\<rparr>)) = 2"
proof -
  let ?q = "(initPort 256)\<lparr>tuyaIdx := 7, haveHdr := True\<rparr>"
  let ?r = "(initPort 256)\<lparr>tuyaIdx := 7, tuyaBuf := (\<lambda>_. 0x55)\<rparr>"
  have h1: "atReset 256 (initPort 256)"
    by (simp add: atReset_def initPort_def)
  have h2: "\<forall>x\<in>set [1, 2, 0xaa :: byte]. x \<noteq> 0x55" by simp
  have h3: "length [1, 2, 0xaa :: byte] + 1 < 256 - 10" by simp
  have h4: "length [1 :: byte] + 7 \<le> 256 - 10" by simp
  have h5: "length [1 :: byte] < 2 ^ 16" by simp
  note t = resync [OF h1 h2 h3 h4 h5, where v = 3 and c = 0 and ck = 4 and q = ?q
      and x = "0x55" and r = ?r, unfolded frame_3_0]
  have hq: "haveHdr ?q" by (simp add: initPort_def)
  have hr: "\<not> haveHdr ?r \<and> 0 < tuyaIdx ?r \<and> tuyaBuf ?r (tuyaIdx ?r - 1) = 0x55"
    by (simp add: initPort_def)
  have "tuyaIdx (storeByte 0x55 ?q) = tuyaIdx ?q + 1"
    using t hq by blast
  then have a: "tuyaIdx (storeByte 0x55 ?q) = 8" by simp
  have b: "tuyaIdx (storeByte 0xaa ?r) = 2"
    using t hr by blast
  have c: "snd (feedPort 256 ([1, 2, 0xaa] @ [0x55, 0xaa, 3, 0, 0, 1, 1, 4]) (initPort 256)) =
      [[0x55, 0xaa, 3, 0, 0, 1, 1, 4]]"
    using t by blast
  have d: "snd (feedPort 256 [0x55, 0xaa, 3, 0, 0, 1, 1, 4] (initPort 256)) =
      [[0x55, 0xaa, 3, 0, 0, 1, 1, 4]]"
    using t c by metis
  show ?thesis
    using a b c d by blast
qed

text \<open>
  C3 as stated fails. Two runs from the reset state with a buffer of 256 bytes. A header in the middle of a
  frame: after \<open>55 aa 03 07 00\<close> the bytes of the complete frame \<open>55 aa 03 00 00 01 01 04\<close>
  arrive. The first \<open>55\<close> is read as the low byte of the length (85), the rest is held as
  payload: thirteen bytes are in the buffer, the header is still the first one, and
  nothing has been handed over. And 245 zero bytes before that frame: what is handed over
  is the zeros with the frame's first byte, not the frame.
\<close>

theorem resync_counterexample:
  "feedPort 256 ([0x55, 0xaa, 3, 7, 0] @ [0x55, 0xaa, 3, 0, 0, 1, 1, 4]) (initPort 256) =
     (\<lparr>tuyaIdx = 13, haveHdr = True, msgLen = 85,
       tuyaBuf = (\<lambda>_. 0)(0 := 0x55, 1 := 0xaa, 2 := 3, 3 := 7, 4 := 0, 5 := 0x55, 6 := 0xaa,
                          7 := 3, 8 := 0, 9 := 0, 10 := 1, 11 := 1, 12 := 4)\<rparr>, []) \<and>
   snd (feedPort 256 [0x55, 0xaa, 3, 0, 0, 1, 1, 4] (initPort 256)) =
     [[0x55, 0xaa, 3, 0, 0, 1, 1, 4]] \<and>
   snd (feedPort 256 (replicate 245 0 @ [0x55, 0xaa, 3, 0, 0, 1, 1, 4]) (initPort 256)) =
     [replicate 245 0 @ [0x55]]"
proof -
  have a: "feedPort 256 ([0x55, 0xaa, 3, 7, 0] @ [0x55, 0xaa, 3, 0, 0, 1, 1, 4]) (initPort 256) =
     (\<lparr>tuyaIdx = 13, haveHdr = True, msgLen = 85,
       tuyaBuf = (\<lambda>_. 0)(0 := 0x55, 1 := 0xaa, 2 := 3, 3 := 7, 4 := 0, 5 := 0x55, 6 := 0xaa,
                          7 := 3, 8 := 0, 9 := 0, 10 := 1, 11 := 1, 12 := 4)\<rparr>, [])"
    by (simp add: initPort_def storeByte_def msgComplete_def resetPort_def header_def)
  have b: "snd (feedPort 256 [0x55, 0xaa, 3, 0, 0, 1, 1, 4] (initPort 256)) =
     [[0x55, 0xaa, 3, 0, 0, 1, 1, 4]]"
    by (simp add: initPort_def storeByte_def msgComplete_def resetPort_def header_def upt_rec)
  have c: "snd (feedPort 256 (replicate 245 0 @ 0x55 # 0xaa # [3, 0, 0, 1, 1, 4]) (initPort 256)) =
     [replicate 245 0 @ [0x55]]"
    by (rule junk_to_limit) (simp_all add: atReset_def initPort_def)
  show ?thesis
    using a b c by blast
qed

section \<open>Bridge mode: a frame from the MCU reaches the dispatcher\<close>

lemma readByte_bridge:
  "\<not> USE_SNIFFER e \<Longrightarrow> readByte e 0 x st = processTuyaByte e 1 x st"
  by (simp add: readByte_def)

lemma readUart_append:
  "readUart e u (xs @ ys) st = readUart e u ys (readUart e u xs st)"
  by (simp add: readUart_def)

lemma readUart_quiet:
  assumes "\<not> USE_SNIFFER e"
  shows "feedPort (BUFF_LEN e) xs (ports st 1) = (p', []) \<Longrightarrow>
         readUart e 0 xs st = st\<lparr>ports := (ports st)(1 := p')\<rparr>"
proof (induction xs arbitrary: st)
  case Nil
  then have "p' = ports st 1" by simp
  then show ?case by (simp add: readUart_def)
next
  case (Cons x xs)
  let ?p1 = "storeByte x (ports st 1)"
  let ?st1 = "st\<lparr>ports := (ports st)(1 := ?p1)\<rparr>"
  have nc: "\<not> msgComplete (BUFF_LEN e) ?p1"
    using Cons.prems by (auto simp: Let_def split: prod.splits if_splits)
  then have run: "feedPort (BUFF_LEN e) xs (ports ?st1 1) = (p', [])"
    using Cons.prems by simp
  have step: "readByte e 0 x st = ?st1"
    using nc assms by (simp add: readByte_def processTuyaByte_def Let_def)
  have "readUart e 0 (x # xs) st = readUart e 0 xs ?st1"
    by (simp add: readUart_def step)
  also have "\<dots> = ?st1\<lparr>ports := (ports ?st1)(1 := p')\<rparr>"
    using run by (rule Cons.IH)
  also have "\<dots> = st\<lparr>ports := (ports st)(1 := p')\<rparr>"
    by simp
  finally show ?case .
qed

text \<open>
  In bridge mode, a frame read from port 0 by a decoder at reset is handed to
  \<^verbatim>\<open>formatTuya\<close> and \<^verbatim>\<open>processMCUcmd\<close> with a buffer \<open>d\<close> that holds the frame from
  position 0 and, behind the frame, what the buffer held before.
\<close>

lemma readUart_frame:
  assumes e: "\<not> USE_SNIFFER e"
    and p: "atReset (BUFF_LEN e) (ports st 1)"
    and f: "length payload + 7 \<le> BUFF_LEN e - 10" "length payload < 2 ^ 16"
  shows "\<exists>d q0 P.
           readUart e 0 (tuyaFrame v c payload ck) st =
             (processMCUcmd e (formatTuya e d (length payload + 7) True
                (st\<lparr>ports := (ports st)(1 := q0)\<rparr>)))\<lparr>ports := P\<rparr> \<and>
           map d [0..<length payload + 7] = tuyaFrame v c payload ck \<and>
           (\<forall>i\<ge>length payload + 7. d i = tuyaBuf (ports st 1) i) \<and>
           P 1 = resetPort (BUFF_LEN e) (P 1) \<and> tuyaBuf (P 1) = d"
proof -
  let ?b = "BUFF_LEN e"
  let ?p = "ports st 1"
  let ?F = "tuyaFrame v c payload ck"
  have p': "\<not> haveHdr ?p" "msgLen ?p = ?b - 10"
      "tuyaIdx ?p = 0 \<or> tuyaBuf ?p (tuyaIdx ?p - 1) \<noteq> 0x55" "tuyaIdx ?p = 0"
    using p by (simp_all add: atReset_def)
  have e0: "\<forall>x\<in>set ([] :: byte list). x \<noteq> 0x55" by simp
  have g0: "tuyaIdx ?p + length ([] :: byte list) + 1 < ?b - 10"
    using f(1) p'(4) by simp
  obtain q0 where q0: "feedPort ?b ([] @ butlast ?F) ?p = (q0, [])" "haveHdr q0"
      "msgLen q0 = length payload" "tuyaIdx q0 = length payload + 6"
      "map (tuyaBuf q0) [0..<length payload + 6] = butlast ?F"
      "\<forall>i. length payload + 6 \<le> i \<and> tuyaIdx ?p + length ([] :: byte list) + 2 \<le> i \<longrightarrow>
           tuyaBuf q0 i = tuyaBuf ?p i"
    using feed_frame_body [OF p'(1,2,3) e0 g0 f, of v c ck] by blast
  let ?st1 = "st\<lparr>ports := (ports st)(1 := q0)\<rparr>"
  let ?q = "storeByte ck q0"
  note sq = storeByte_hdr [OF q0(2), of ck]
  have fr: "?F = butlast ?F @ [ck]"
    by (simp add: tuyaFrame_def butlast_append)
  have quiet: "readUart e 0 (butlast ?F) st = ?st1"
    using q0(1) by (intro readUart_quiet e) simp
  have idxq: "tuyaIdx ?q = length payload + 7"
    by (simp add: sq q0(4))
  have lenq: "msgLen ?q = length payload"
    by (simp add: sq q0(3,4))
  have cq: "msgComplete ?b ?q"
    using f(1) unfolding msgComplete_nat idxq lenq by simp
  have "readUart e 0 ?F st = readUart e 0 [ck] (readUart e 0 (butlast ?F) st)"
    using fr readUart_append [of e 0 "butlast ?F" "[ck]" st] by simp
  also have "\<dots> = readUart e 0 [ck] ?st1"
    by (simp only: quiet)
  also have "\<dots> = processTuyaByte e 1 ck ?st1"
    by (simp add: readUart_def readByte_bridge [OF e])
  also have "\<dots> = (processMCUcmd e (formatTuya e (tuyaBuf ?q) (length payload + 7) True ?st1))
      \<lparr>ports := (ports (processMCUcmd e
           (formatTuya e (tuyaBuf ?q) (length payload + 7) True ?st1)))
         (1 := resetPort ?b ?q)\<rparr>"
    using cq e by (simp add: processTuyaByte_def Let_def idxq)
  finally have run: "readUart e 0 ?F st =
      (processMCUcmd e (formatTuya e (tuyaBuf ?q) (length payload + 7) True ?st1))
      \<lparr>ports := (ports (processMCUcmd e
           (formatTuya e (tuyaBuf ?q) (length payload + 7) True ?st1)))
         (1 := resetPort ?b ?q)\<rparr>" .
  have up: "[0..<length payload + 7] = [0..<length payload + 6] @ [length payload + 6]"
  proof -
    have s: "length payload + 7 = Suc (length payload + 6)" by arith
    show ?thesis unfolding s by (rule upt_Suc_append) simp
  qed
  have "map (tuyaBuf ?q) [0..<length payload + 7] =
      map (tuyaBuf ?q) [0..<length payload + 6] @ [tuyaBuf ?q (length payload + 6)]"
    by (simp only: up map_append list.map)
  also have "\<dots> = map (tuyaBuf q0) [0..<length payload + 6] @ [ck]"
    by (simp add: sq q0(4))
  finally have "map (tuyaBuf ?q) [0..<length payload + 7] =
      map (tuyaBuf q0) [0..<length payload + 6] @ [ck]" .
  then have buf: "map (tuyaBuf ?q) [0..<length payload + 7] = ?F"
    using fr q0(5) by simp
  have stale: "\<forall>i\<ge>length payload + 7. tuyaBuf ?q i = tuyaBuf ?p i"
    using q0(6) p'(4) by (simp add: sq q0(4))
  let ?P = "(ports (processMCUcmd e
      (formatTuya e (tuyaBuf ?q) (length payload + 7) True ?st1)))(1 := resetPort ?b ?q)"
  have P: "?P 1 = resetPort ?b (?P 1)" "tuyaBuf (?P 1) = tuyaBuf ?q"
    by (simp_all add: resetPort_def)
  show ?thesis
    using run buf stale P by blast
qed

lemma formatTuya_at_skip: "10 < i \<Longrightarrow> formatTuya_at d len isP i s = s"
  by (cases s) (simp add: formatTuya_at_def)

lemma fold_formatTuya_skip: "fold (formatTuya_at d len isP) [11..<n] s = s"
  by (induction n) (simp_all add: formatTuya_at_skip)

lemma upt_11: "11 \<le> len \<Longrightarrow> [0..<len] = [0..<11] @ [11..<len]"
  using upt_add_eq_append [of 0 11 "len - 11"] by simp

lemma formatTuya_at_3:
  "formatTuya_at d len True 3 (DP, m) =
     (DP \<or> d 3 = 6 \<or> d 3 = 7, m\<lparr>tuyaCmd := d 3, tuyaDP := d 6\<rparr>)"
  by (simp add: formatTuya_at_def)

lemma formatTuya_at_idle:
  "i \<noteq> 3 \<Longrightarrow> i \<noteq> 10 \<Longrightarrow> i \<noteq> 6 \<or> DP \<Longrightarrow> formatTuya_at d len isP i (DP, m) = (DP, m)"
  by (auto simp: formatTuya_at_def)

lemma formatTuya_at_10:
  "10 < len - 1 \<Longrightarrow>
   formatTuya_at d len True 10 (True, m) =
     (True,
      if d 7 = 0 \<or> d 7 = 5 \<or> d 7 = 3
        then m\<lparr>tuyaData := copyData d 10 (len - 1) (tuyaData m)\<rparr>
      else if d 7 = 1 \<or> d 7 = 4 then m\<lparr>tuyaData := (tuyaData m)(0 := d 10)\<rparr>
      else if d 7 = 2 then m\<lparr>tuyaInt := intVal_of d\<rparr>
      else m)"
  by (simp add: formatTuya_at_def)

lemma upt_0_11: "[0..<11] = [0, 1, 2, 3, 4, 5, 6, 7, 8, 9, 10 :: nat]"
  by (simp add: upt_rec)

text \<open>
  What \<^verbatim>\<open>formatTuya\<close> stores for a message with command 7 that is at least 12 bytes long:
  the command, the datapoint id, and the value by the declared type. For type 2 the
  value is read from positions 10 to 13 of the buffer, whatever the length.
\<close>

lemma formatTuya_dp:
  assumes "\<not> USE_SNIFFER e" and "d 3 = 7" and "12 \<le> len"
  shows "formatTuya e d len True st =
     st\<lparr>mcuTuya :=
          (let m = (mcuTuya st)\<lparr>tuyaCmd := 7, tuyaDP := d 6\<rparr>
           in if d 7 = 0 \<or> d 7 = 5 \<or> d 7 = 3
                then m\<lparr>tuyaData := copyData d 10 (len - 1) (tuyaData m)\<rparr>
              else if d 7 = 1 \<or> d 7 = 4 then m\<lparr>tuyaData := (tuyaData m)(0 := d 10)\<rparr>
              else if d 7 = 2 then m\<lparr>tuyaInt := intVal_of d\<rparr>
              else m)\<rparr>"
proof -
  have len: "11 \<le> len" "10 < len - 1"
    using assms(3) by simp_all
  have "fold (formatTuya_at d len True) [0..<len] (False, mcuTuya st) =
      formatTuya_at d len True 10 (True, (mcuTuya st)\<lparr>tuyaCmd := 7, tuyaDP := d 6\<rparr>)"
    unfolding upt_11 [OF len(1)] fold_append o_apply fold_formatTuya_skip upt_0_11
    by (simp add: formatTuya_at_3 formatTuya_at_idle assms(2))
  then show ?thesis
    using assms(1) by (simp add: formatTuya_def formatTuya_at_10 [OF len(2)] Let_def)
qed

lemma show_f1_0: "show_f1 0 = ''0.0''"
  by code_simp

text \<open>
  A report of a four-byte integer for datapoint \<open>dp\<close>, with any checksum byte, read in
  bridge mode by a decoder at reset: \<^verbatim>\<open>processDP\<close> runs with \<^verbatim>\<open>mcuTuya\<close> holding command
  7, the datapoint id and the integer.
\<close>

lemma readUart_typed_report:
  assumes e: "\<not> USE_SNIFFER e" and p: "atReset (BUFF_LEN e) (ports st 1)"
    and b: "25 \<le> BUFF_LEN e"
  shows "\<exists>q0 P. readUart e 0 (tuyaFrame 3 7 [dp, ty, 0, 4, b3, b2, b1, b0] ck) st =
     (processDP e (st\<lparr>ports := (ports st)(1 := q0),
        mcuTuya :=
          (let m = (mcuTuya st)\<lparr>tuyaCmd := 7, tuyaDP := dp\<rparr>
           in if ty = 0 \<or> ty = 5 \<or> ty = 3
                then m\<lparr>tuyaData := (tuyaData m)(0 := b3, 1 := b2, 2 := b1, 3 := b0)\<rparr>
              else if ty = 1 \<or> ty = 4 then m\<lparr>tuyaData := (tuyaData m)(0 := b3)\<rparr>
              else if ty = 2
                then m\<lparr>tuyaInt := to_signed 32 (uint b3 * 2 ^ 24 + uint b2 * 2 ^ 16 +
                                                  uint b1 * 2 ^ 8 + uint b0)\<rparr>
              else m)\<rparr>))\<lparr>ports := P\<rparr> \<and>
     P 1 = resetPort (BUFF_LEN e) (P 1) \<and> tuyaBuf (P 1) 12 = b1 \<and> tuyaBuf (P 1) 13 = b0"
proof -
  let ?payload = "[dp, ty, 0, 4, b3, b2, b1, b0]"
  have f: "length ?payload + 7 \<le> BUFF_LEN e - 10" "length ?payload < 2 ^ 16"
    using b by simp_all
  obtain d q0 P where run: "readUart e 0 (tuyaFrame 3 7 ?payload ck) st =
        (processMCUcmd e (formatTuya e d (length ?payload + 7) True
           (st\<lparr>ports := (ports st)(1 := q0)\<rparr>)))\<lparr>ports := P\<rparr>"
      and buf: "map d [0..<length ?payload + 7] = tuyaFrame 3 7 ?payload ck"
      and P: "P 1 = resetPort (BUFF_LEN e) (P 1)" "tuyaBuf (P 1) = d"
    using readUart_frame [OF e p f, of 3 7 ck] by blast
  have dn: "d i = tuyaFrame 3 7 ?payload ck ! i" if "i < 15" for i
  proof -
    have "map d [0..<length ?payload + 7] ! i = d (0 + i)"
      using that by (intro nth_map_upt) simp
    then show ?thesis
      unfolding buf by simp
  qed
  have d: "d 3 = 7" "d 6 = dp" "d 7 = ty" "d 10 = b3" "d 11 = b2" "d 12 = b1" "d 13 = b0"
    by (simp_all add: dn tuyaFrame_def)
  have cp: "copyData d 10 14 t = t(0 := b3, 1 := b2, 2 := b1, 3 := b0)" for t
    by (simp add: copyData_def upt_rec d)
  let ?st1 = "st\<lparr>ports := (ports st)(1 := q0)\<rparr>"
  have fm: "formatTuya e d 15 True ?st1 =
      ?st1\<lparr>mcuTuya :=
          (let m = (mcuTuya st)\<lparr>tuyaCmd := 7, tuyaDP := dp\<rparr>
           in if ty = 0 \<or> ty = 5 \<or> ty = 3
                then m\<lparr>tuyaData := (tuyaData m)(0 := b3, 1 := b2, 2 := b1, 3 := b0)\<rparr>
              else if ty = 1 \<or> ty = 4 then m\<lparr>tuyaData := (tuyaData m)(0 := b3)\<rparr>
              else if ty = 2
                then m\<lparr>tuyaInt := to_signed 32 (uint b3 * 2 ^ 24 + uint b2 * 2 ^ 16 +
                                                  uint b1 * 2 ^ 8 + uint b0)\<rparr>
              else m)\<rparr>"
    using formatTuya_dp [where e = e and d = d and len = 15 and st = ?st1] e
    by (simp add: d cp intVal_of_def Let_def)
  have mc: "processMCUcmd e (formatTuya e d 15 True ?st1) =
      processDP e (formatTuya e d 15 True ?st1)"
    unfolding fm by (simp add: processMCUcmd_def Let_def)
  have "readUart e 0 (tuyaFrame 3 7 ?payload ck) st =
      (processDP e (formatTuya e d 15 True ?st1))\<lparr>ports := P\<rparr>"
    using run mc by simp
  then have run2: "readUart e 0 (tuyaFrame 3 7 ?payload ck) st =
     (processDP e (st\<lparr>ports := (ports st)(1 := q0),
        mcuTuya :=
          (let m = (mcuTuya st)\<lparr>tuyaCmd := 7, tuyaDP := dp\<rparr>
           in if ty = 0 \<or> ty = 5 \<or> ty = 3
                then m\<lparr>tuyaData := (tuyaData m)(0 := b3, 1 := b2, 2 := b1, 3 := b0)\<rparr>
              else if ty = 1 \<or> ty = 4 then m\<lparr>tuyaData := (tuyaData m)(0 := b3)\<rparr>
              else if ty = 2
                then m\<lparr>tuyaInt := to_signed 32 (uint b3 * 2 ^ 24 + uint b2 * 2 ^ 16 +
                                                  uint b1 * 2 ^ 8 + uint b0)\<rparr>
              else m)\<rparr>))\<lparr>ports := P\<rparr>"
    unfolding fm by simp
  have stale: "tuyaBuf (P 1) 12 = b1" "tuyaBuf (P 1) 13 = b0"
    unfolding P(2) by (rule d)+
  show ?thesis
    using run2 P(1) stale by blast
qed

section \<open>Datapoint reports: target temperature and calibration\<close>

lemma frame_15:
  "[0x55, 0xaa, 3, 7, 0, 8, dp, ty, 0, 4, b3, b2, b1, b0, ck] =
   tuyaFrame 3 7 [dp, ty, 0, 4, b3, b2, b1, b0] ck"
  by (simp add: tuyaFrame_def)

lemma bridgeEnv_reset:
  "\<not> USE_SNIFFER bridgeEnv" "atReset (BUFF_LEN bridgeEnv) (ports (initApp 256) 1)"
  "25 \<le> BUFF_LEN bridgeEnv"
  by (simp_all add: bridgeEnv_def initApp_def initPort_def atReset_def)

lemma readUart_int_report:
  assumes "\<not> USE_SNIFFER e" and "atReset (BUFF_LEN e) (ports st 1)" and "25 \<le> BUFF_LEN e"
  shows "\<exists>q0 P. readUart e 0 (tuyaFrame 3 7 [dp, 2, 0, 4, b3, b2, b1, b0] ck) st =
     (processDP e (st\<lparr>ports := (ports st)(1 := q0),
        mcuTuya := (mcuTuya st)\<lparr>tuyaCmd := 7, tuyaDP := dp,
          tuyaInt := to_signed 32 (uint b3 * 2 ^ 24 + uint b2 * 2 ^ 16 +
                                   uint b1 * 2 ^ 8 + uint b0)\<rparr>\<rparr>))\<lparr>ports := P\<rparr> \<and>
     P 1 = resetPort (BUFF_LEN e) (P 1) \<and> tuyaBuf (P 1) 12 = b1 \<and> tuyaBuf (P 1) 13 = b0"
  using readUart_typed_report [OF assms, of dp 2 b3 b2 b1 b0 ck]
  by (simp add: Let_def)

text \<open>Conversions and products of single and double precision at given numbers.\<close>

lemmas float_eval =
  to_float_def to_double_def roundBinary_def binExp_def binDigits.simps pow2_def
  round_half_even_def Let_def

lemma float_zero: "to_float 0 = 0" "to_double 0 = 0"
  by (simp_all add: to_float_def to_double_def roundBinary_def)

lemma float_188: "to_float (to_double (94 / 5)) = 4928307 / 262144"
  by (simp add: float_eval)

lemma float_15: "to_float (to_double (3 / 2)) = 3 / 2"
  by (simp add: float_eval)

lemma show_f1_float_188: "show_f1 (4928307 / 262144) = ''18.8''"
  by code_simp

lemma show_f1_15: "show_f1 (3 / 2) = ''1.5''"
  by code_simp

text \<open>
  What \<^verbatim>\<open>processDP\<close> does with a report of datapoints 2 and 20, whatever the integer.
\<close>

lemma processDP_2:
  "tuyaDP (mcuTuya st) = 2 \<Longrightarrow>
   processDP e st =
     st\<lparr>tgtTemp := to_float (to_double (real_of_int (tuyaInt (mcuTuya st)) / 10)),
        wsOut := wsOut st @
          [(''tgtTemp'',
            show_f1 (to_float (to_double (real_of_int (tuyaInt (mcuTuya st)) / 10))))]\<rparr>"
  by (simp add: processDP_def wsJsonSend_def Let_def)

lemma processDP_20:
  "tuyaDP (mcuTuya st) = 20 \<Longrightarrow>
   processDP e st =
     (if ESPcontroller st then st
      else st\<lparr>wsOut := wsOut st @
          [(''tempCal'',
            show_f1 (to_float (to_double (real_of_int (tuyaInt (mcuTuya st)) / 10))))]\<rparr>)"
  by (simp add: processDP_def wsJsonSend_def Let_def)

text \<open>
  C2, as the code has it. The stream of the claim declares type 4 (enum) for datapoint 2;
  with type 2 (int) declared, that is the stream
  \<open>55 aa 03 07 00 08 02 02 00 04 00 00 00 bc ck\<close> with any checksum byte \<open>ck\<close> (the decoder
  does not verify it), read in bridge mode by a decoder at reset: the target temperature
  becomes the \<^verbatim>\<open>float\<close> of 188 decidegrees (\<^verbatim>\<open>(float)(188 / 10.0)\<close>, the value of type
  \<^verbatim>\<open>float\<close> nearest to 18.8, less than a millionth of a degree from it) and \<open>tgtTemp=18.8\<close>
  is published.
\<close>

theorem decode_tgtTemp:
  assumes "\<not> USE_SNIFFER e" and "atReset (BUFF_LEN e) (ports st 1)" and "25 \<le> BUFF_LEN e"
  shows "tgtTemp (readUart e 0 [0x55, 0xaa, 3, 7, 0, 8, 2, 2, 0, 4, 0, 0, 0, 0xbc, ck] st)
           = to_float (to_double (188 / 10)) \<and>
         \<bar>tgtTemp (readUart e 0 [0x55, 0xaa, 3, 7, 0, 8, 2, 2, 0, 4, 0, 0, 0, 0xbc, ck] st)
            - 188 / 10\<bar> < 1 / 10 ^ 6 \<and>
         wsOut (readUart e 0 [0x55, 0xaa, 3, 7, 0, 8, 2, 2, 0, 4, 0, 0, 0, 0xbc, ck] st)
           = wsOut st @ [(''tgtTemp'', ''18.8'')]"
proof -
  obtain q0 P where
    "readUart e 0 (tuyaFrame 3 7 [2, 2, 0, 4, 0, 0, 0, 0xbc] ck) st =
     (processDP e (st\<lparr>ports := (ports st)(1 := q0),
        mcuTuya := (mcuTuya st)\<lparr>tuyaCmd := 7, tuyaDP := 2, tuyaInt := 188\<rparr>\<rparr>))\<lparr>ports := P\<rparr>"
    using readUart_typed_report [OF assms, of 2 2 0 0 0 "0xbc" ck]
    by (auto simp: to_signed_def)
  then show ?thesis
    unfolding frame_15
    by (simp add: processDP_2 float_188 show_f1_float_188)
qed

theorem decode_tgtTemp_witness:
  "tgtTemp (readUart bridgeEnv 0 [0x55, 0xaa, 3, 7, 0, 8, 2, 2, 0, 4, 0, 0, 0, 0xbc, 0xd5]
      (initApp 256)) = 4928307 / 262144 \<and>
   wsOut (readUart bridgeEnv 0 [0x55, 0xaa, 3, 7, 0, 8, 2, 2, 0, 4, 0, 0, 0, 0xbc, 0xd5]
      (initApp 256)) = [(''tgtTemp'', ''18.8'')]"
  using decode_tgtTemp [OF bridgeEnv_reset, of "0xd5"]
  by (simp add: initApp_def float_188)

text \<open>
  C2 as stated fails: in the stream of the claim the type byte is 04, so \<^verbatim>\<open>formatTuya\<close>
  stores the first data byte in \<^verbatim>\<open>tuyaData[0]\<close> and leaves \<^verbatim>\<open>tuyaInt\<close> as it was; from
  start-up (\<^verbatim>\<open>tuyaInt = 0\<close>) the target temperature becomes 0 and \<open>tgtTemp=0.0\<close> is
  published.
\<close>

theorem decode_tgtTemp_counterexample:
  "tgtTemp (readUart bridgeEnv 0 [0x55, 0xaa, 3, 7, 0, 8, 2, 4, 0, 4, 0, 0, 0, 0xbc, 6]
      (initApp 256)) = 0 \<and>
   wsOut (readUart bridgeEnv 0 [0x55, 0xaa, 3, 7, 0, 8, 2, 4, 0, 4, 0, 0, 0, 0xbc, 6]
      (initApp 256)) = [(''tgtTemp'', ''0.0'')]"
proof -
  obtain q0 P where
    "readUart bridgeEnv 0 (tuyaFrame 3 7 [2, 4, 0, 4, 0, 0, 0, 0xbc] 6) (initApp 256) =
     (processDP bridgeEnv ((initApp 256)\<lparr>ports := (ports (initApp 256))(1 := q0),
        mcuTuya := (mcuTuya (initApp 256))\<lparr>tuyaCmd := 7, tuyaDP := 2,
           tuyaData := (tuyaData (mcuTuya (initApp 256)))(0 := 0)\<rparr>\<rparr>))\<lparr>ports := P\<rparr>"
    using readUart_typed_report [OF bridgeEnv_reset, of 2 4 0 0 0 "0xbc" 6]
    by auto
  then show ?thesis
    unfolding frame_15
    by (simp add: processDP_2 float_zero show_f1_0 initApp_def)
qed

text \<open>
  C8, as the code has it. A report of datapoint 20 that is well formed for an integer
  (type 2, four data bytes \<open>b3 b2 b1 b0\<close>, any checksum byte), read in bridge mode by a
  decoder at reset; \<open>v\<close> is the signed integer of the four bytes. While the ESP controls,
  the report changes nothing but the decoder's own record of it (\<^verbatim>\<open>mcuTuya\<close> and the state
  of the port): nothing is published and no variable of the controller changes. Otherwise
  \<open>tempCal\<close> is published once, as the \<^verbatim>\<open>%0.1f\<close> text of \<^verbatim>\<open>(float)(v / 10.0)\<close>, and nothing
  else changes: \<open>baseCal\<close> keeps its value (the only assignment to it is in
  \<^verbatim>\<open>updateAppStatus\<close>, for the UI update \<open>tempCal\<close>).
\<close>

theorem tempCal_report:
  assumes "\<not> USE_SNIFFER e" and "atReset (BUFF_LEN e) (ports st 1)" and "25 \<le> BUFF_LEN e"
  shows "\<exists>P. readUart e 0 [0x55, 0xaa, 3, 7, 0, 8, 20, 2, 0, 4, b3, b2, b1, b0, ck] st =
           (let v = to_signed 32 (uint b3 * 2 ^ 24 + uint b2 * 2 ^ 16 + uint b1 * 2 ^ 8 + uint b0);
                st1 = st\<lparr>mcuTuya := (mcuTuya st)\<lparr>tuyaCmd := 7, tuyaDP := 20, tuyaInt := v\<rparr>,
                        ports := P\<rparr>
            in if ESPcontroller st then st1
               else st1\<lparr>wsOut := wsOut st @
                      [(''tempCal'', show_f1 (to_float (to_double (real_of_int v / 10))))]\<rparr>)"
proof -
  define v where "v = to_signed 32 (uint b3 * 2 ^ 24 + uint b2 * 2 ^ 16 + uint b1 * 2 ^ 8 + uint b0)"
  note r = readUart_int_report [OF assms, of 20 b3 b2 b1 b0 ck]
  note r2 = r [folded v_def]
  from r2
  obtain q0 P where run:
    "readUart e 0 (tuyaFrame 3 7 [20, 2, 0, 4, b3, b2, b1, b0] ck) st =
     (processDP e (st\<lparr>ports := (ports st)(1 := q0),
        mcuTuya := (mcuTuya st)\<lparr>tuyaCmd := 7, tuyaDP := 20, tuyaInt := v\<rparr>\<rparr>))\<lparr>ports := P\<rparr>"
    by (elim exE conjE)
  let ?st0 = "st\<lparr>ports := (ports st)(1 := q0),
        mcuTuya := (mcuTuya st)\<lparr>tuyaCmd := 7, tuyaDP := 20, tuyaInt := v\<rparr>\<rparr>"
  have dp: "tuyaDP (mcuTuya ?st0) = 20"
    by simp
  note pd = processDP_20 [OF dp, of e]
  have "readUart e 0 (tuyaFrame 3 7 [20, 2, 0, 4, b3, b2, b1, b0] ck) st =
      (let st1 = st\<lparr>mcuTuya := (mcuTuya st)\<lparr>tuyaCmd := 7, tuyaDP := 20, tuyaInt := v\<rparr>,
                        ports := P\<rparr>
       in if ESPcontroller st then st1
          else st1\<lparr>wsOut := wsOut st @
                 [(''tempCal'', show_f1 (to_float (to_double (real_of_int v / 10))))]\<rparr>)"
    unfolding run pd by (simp add: Let_def)
  then show ?thesis
    unfolding frame_15 v_def [symmetric] Let_def by (rule exI [where x = P])
qed

theorem tempCal_report_witness:
  "wsOut (readUart bridgeEnv 0 [0x55, 0xaa, 3, 7, 0, 8, 20, 2, 0, 4, 0, 0, 0, 0x0f, 0x3a]
      (initApp 256)) = [(''tempCal'', ''1.5'')] \<and>
   baseCal (readUart bridgeEnv 0 [0x55, 0xaa, 3, 7, 0, 8, 20, 2, 0, 4, 0, 0, 0, 0x0f, 0x3a]
      (initApp 256)) = 0 \<and>
   wsOut (readUart bridgeEnv 0 [0x55, 0xaa, 3, 7, 0, 8, 20, 2, 0, 4, 0, 0, 0, 0x0f, 0x3a]
      ((initApp 256)\<lparr>ESPcontroller := True\<rparr>)) = [] \<and>
   baseCal (readUart bridgeEnv 0 [0x55, 0xaa, 3, 7, 0, 8, 20, 2, 0, 4, 0, 0, 0, 0x0f, 0x3a]
      ((initApp 256)\<lparr>ESPcontroller := True\<rparr>)) = 0"
proof -
  let ?F = "[0x55, 0xaa, 3, 7, 0, 8, 20, 2, 0, 4, 0, 0, 0, 0x0f, 0x3a] :: byte list"
  let ?on = "(initApp 256)\<lparr>ESPcontroller := True\<rparr>"
  have r: "atReset (BUFF_LEN bridgeEnv) (ports ?on 1)"
    using bridgeEnv_reset(2) by simp
  have v: "to_signed 32 (uint (0 :: byte) * 2 ^ 24 + uint (0 :: byte) * 2 ^ 16 +
      uint (0 :: byte) * 2 ^ 8 + uint (0x0f :: byte)) = 15"
    by (simp add: to_signed_def)
  have esp: "\<not> ESPcontroller (initApp 256)" "ESPcontroller ?on"
    by (simp_all add: initApp_def)
  have "\<exists>P. readUart bridgeEnv 0 ?F (initApp 256) =
      (initApp 256)\<lparr>mcuTuya := (mcuTuya (initApp 256))\<lparr>tuyaCmd := 7, tuyaDP := 20,
          tuyaInt := 15\<rparr>, ports := P,
        wsOut := wsOut (initApp 256) @ [(''tempCal'', show_f1 (to_float (to_double (15 / 10))))]\<rparr>"
    using tempCal_report [OF bridgeEnv_reset, of 0 0 0 "0x0f" "0x3a"]
    unfolding v Let_def by (simp only: esp if_False of_int_numeral)
  then obtain P where off: "readUart bridgeEnv 0 ?F (initApp 256) =
      (initApp 256)\<lparr>mcuTuya := (mcuTuya (initApp 256))\<lparr>tuyaCmd := 7, tuyaDP := 20,
          tuyaInt := 15\<rparr>, ports := P,
        wsOut := wsOut (initApp 256) @ [(''tempCal'', show_f1 (to_float (to_double (15 / 10))))]\<rparr>" ..
  have "\<exists>P. readUart bridgeEnv 0 ?F ?on =
      ?on\<lparr>mcuTuya := (mcuTuya ?on)\<lparr>tuyaCmd := 7, tuyaDP := 20, tuyaInt := 15\<rparr>,
        ports := P\<rparr>"
    using tempCal_report [OF bridgeEnv_reset(1) r bridgeEnv_reset(3), of 0 0 0 "0x0f" "0x3a"]
    unfolding v Let_def by (simp only: esp if_True)
  then obtain P' where on: "readUart bridgeEnv 0 ?F ?on =
      ?on\<lparr>mcuTuya := (mcuTuya ?on)\<lparr>tuyaCmd := 7, tuyaDP := 20, tuyaInt := 15\<rparr>,
        ports := P'\<rparr>" ..
  have a: "wsOut (readUart bridgeEnv 0 ?F (initApp 256)) = [(''tempCal'', ''1.5'')]"
    "baseCal (readUart bridgeEnv 0 ?F (initApp 256)) = 0"
    unfolding off by (simp_all add: float_15 show_f1_15 initApp_def)
  have b: "wsOut (readUart bridgeEnv 0 ?F ?on) = []" "baseCal (readUart bridgeEnv 0 ?F ?on) = 0"
    unfolding on by (simp_all add: initApp_def)
  show ?thesis
    using a b by simp
qed

text \<open>
  C8 as stated fails: at start-up, with the MCU in control, the report
  \<open>55 aa 03 07 00 08 14 02 00 04 00 00 00 0f 3a\<close> (datapoint 20, value 15) is published as
  \<open>tempCal=1.5\<close> and \<open>baseCal\<close> is still 0.
\<close>

theorem tempCal_report_counterexample:
  "\<not> ESPcontroller (initApp 256) \<and>
   wsOut (readUart bridgeEnv 0 [0x55, 0xaa, 3, 7, 0, 8, 0x14, 2, 0, 4, 0, 0, 0, 0x0f, 0x3a]
      (initApp 256)) = [(''tempCal'', ''1.5'')] \<and>
   baseCal (readUart bridgeEnv 0 [0x55, 0xaa, 3, 7, 0, 8, 0x14, 2, 0, 4, 0, 0, 0, 0x0f, 0x3a]
      (initApp 256)) = 0"
proof -
  obtain q0 P where
    "readUart bridgeEnv 0 (tuyaFrame 3 7 [0x14, 2, 0, 4, 0, 0, 0, 0x0f] 0x3a) (initApp 256) =
     (processDP bridgeEnv ((initApp 256)\<lparr>ports := (ports (initApp 256))(1 := q0),
        mcuTuya := (mcuTuya (initApp 256))\<lparr>tuyaCmd := 7, tuyaDP := 0x14,
           tuyaInt := 15\<rparr>\<rparr>))\<lparr>ports := P\<rparr>"
    using readUart_typed_report [OF bridgeEnv_reset, of "0x14" 2 0 0 0 "0x0f" "0x3a"]
    by (auto simp: to_signed_def)
  then show ?thesis
    unfolding frame_15
    by (simp add: processDP_20 float_15 show_f1_15 initApp_def)
qed

section \<open>A short report that declares an integer\<close>

lemma frame_12:
  "[0x55, 0xaa, 3, 7, 0, 5, dp, ty, 0, 1, x, ck] = tuyaFrame 3 7 [dp, ty, 0, 1, x] ck"
  by (simp add: tuyaFrame_def)

text \<open>
  A report of twelve bytes that declares type 2: the integer is built from the data byte,
  the checksum byte and the two bytes that the buffer holds behind the frame.
\<close>

lemma readUart_short_int:
  assumes e: "\<not> USE_SNIFFER e" and p: "atReset (BUFF_LEN e) (ports st 1)"
    and b: "22 \<le> BUFF_LEN e"
  shows "\<exists>q0 P. readUart e 0 (tuyaFrame 3 7 [dp, 2, 0, 1, x] ck) st =
     (processDP e (st\<lparr>ports := (ports st)(1 := q0),
        mcuTuya := (mcuTuya st)\<lparr>tuyaCmd := 7, tuyaDP := dp,
          tuyaInt := to_signed 32 (uint x * 2 ^ 24 + uint ck * 2 ^ 16 +
                       uint (tuyaBuf (ports st 1) 12) * 2 ^ 8 +
                       uint (tuyaBuf (ports st 1) 13))\<rparr>\<rparr>))\<lparr>ports := P\<rparr>"
proof -
  let ?payload = "[dp, 2, 0, 1, x]"
  have f: "length ?payload + 7 \<le> BUFF_LEN e - 10" "length ?payload < 2 ^ 16"
    using b by simp_all
  obtain d q0 P where run: "readUart e 0 (tuyaFrame 3 7 ?payload ck) st =
        (processMCUcmd e (formatTuya e d (length ?payload + 7) True
           (st\<lparr>ports := (ports st)(1 := q0)\<rparr>)))\<lparr>ports := P\<rparr>"
      and buf: "map d [0..<length ?payload + 7] = tuyaFrame 3 7 ?payload ck"
      and stale: "\<forall>i\<ge>length ?payload + 7. d i = tuyaBuf (ports st 1) i"
    using readUart_frame [OF e p f, of 3 7 ck] by blast
  have dn: "d i = tuyaFrame 3 7 ?payload ck ! i" if "i < 12" for i
  proof -
    have "map d [0..<length ?payload + 7] ! i = d (0 + i)"
      using that by (intro nth_map_upt) simp
    then show ?thesis
      unfolding buf by simp
  qed
  have d: "d 3 = 7" "d 6 = dp" "d 7 = 2" "d 10 = x" "d 11 = ck"
    by (simp_all add: dn tuyaFrame_def)
  have ds: "d 12 = tuyaBuf (ports st 1) 12" "d 13 = tuyaBuf (ports st 1) 13"
    using stale by simp_all
  let ?st1 = "st\<lparr>ports := (ports st)(1 := q0)\<rparr>"
  have fm: "formatTuya e d 12 True ?st1 =
      ?st1\<lparr>mcuTuya := (mcuTuya st)\<lparr>tuyaCmd := 7, tuyaDP := dp,
          tuyaInt := to_signed 32 (uint x * 2 ^ 24 + uint ck * 2 ^ 16 +
                       uint (tuyaBuf (ports st 1) 12) * 2 ^ 8 +
                       uint (tuyaBuf (ports st 1) 13))\<rparr>\<rparr>"
    using formatTuya_dp [where e = e and d = d and len = 12 and st = ?st1] e
    by (simp add: d ds intVal_of_def Let_def)
  have mc: "processMCUcmd e (formatTuya e d 12 True ?st1) =
      processDP e (formatTuya e d 12 True ?st1)"
    unfolding fm by (simp add: processMCUcmd_def Let_def)
  have "readUart e 0 (tuyaFrame 3 7 ?payload ck) st =
      (processDP e (formatTuya e d 12 True ?st1))\<lparr>ports := P\<rparr>"
    using run mc by simp
  then show ?thesis
    unfolding fm by blast
qed

text \<open>
  C10. In bridge mode, a decoder at reset receives a report of a four-byte integer (15
  bytes, data bytes \<open>b3 b2 b1 b0\<close>) and then the report \<open>55 aa 03 07 00 05 02 02 00 01 x ck\<close>:
  command 7, datapoint 2, declared type 2, one data byte, 12 bytes in all. The integer that
  \<^verbatim>\<open>formatTuya\<close> stores for the second report is read from buffer positions 10 to 13: the
  data byte, the checksum byte, and \<open>b1\<close> and \<open>b0\<close> of the report before, which the
  buffer still holds at positions 12 and 13; the target temperature is set from it, to
  \<^verbatim>\<open>(float)(tuyaInt / 10.0)\<close>. Nothing tests that the frame holds four data bytes.
\<close>

theorem stale_bytes_in_int:
  assumes "\<not> USE_SNIFFER e" and "atReset (BUFF_LEN e) (ports st 1)"
    and "25 \<le> BUFF_LEN e" and "BUFF_LEN e < 65546"
  shows "tuyaInt (mcuTuya (readUart e 0
            ([0x55, 0xaa, 3, 7, 0, 8, dp, 2, 0, 4, b3, b2, b1, b0, ckA] @
             [0x55, 0xaa, 3, 7, 0, 5, 2, 2, 0, 1, x, ck]) st)) =
           to_signed 32 (uint x * 2 ^ 24 + uint ck * 2 ^ 16 + uint b1 * 2 ^ 8 + uint b0) \<and>
         tgtTemp (readUart e 0
            ([0x55, 0xaa, 3, 7, 0, 8, dp, 2, 0, 4, b3, b2, b1, b0, ckA] @
             [0x55, 0xaa, 3, 7, 0, 5, 2, 2, 0, 1, x, ck]) st) =
           to_float (to_double (real_of_int (to_signed 32
             (uint x * 2 ^ 24 + uint ck * 2 ^ 16 + uint b1 * 2 ^ 8 + uint b0)) / 10))"
proof -
  let ?A = "tuyaFrame 3 7 [dp, 2, 0, 4, b3, b2, b1, b0] ckA"
  let ?B = "tuyaFrame 3 7 [2, 2, 0, 1, x] ck"
  obtain S P where A: "readUart e 0 ?A st = S\<lparr>ports := P\<rparr>"
      and P: "P 1 = resetPort (BUFF_LEN e) (P 1)" "tuyaBuf (P 1) 12 = b1" "tuyaBuf (P 1) 13 = b0"
    using readUart_int_report [OF assms(1,2,3), of dp b3 b2 b1 b0 ckA] by blast
  let ?stA = "S\<lparr>ports := P\<rparr>"
  have "atReset (BUFF_LEN e) (resetPort (BUFF_LEN e) (P 1))"
    using assms(3,4) by (simp add: atReset_def resetPort_def nat_mod_distrib)
  then have resetA: "atReset (BUFF_LEN e) (ports ?stA 1)"
    using P(1) by simp
  have b22: "22 \<le> BUFF_LEN e"
    using assms(3) by simp
  obtain q0 P' where B: "readUart e 0 ?B ?stA =
     (processDP e (?stA\<lparr>ports := (ports ?stA)(1 := q0),
        mcuTuya := (mcuTuya ?stA)\<lparr>tuyaCmd := 7, tuyaDP := 2,
          tuyaInt := to_signed 32 (uint x * 2 ^ 24 + uint ck * 2 ^ 16 +
                       uint (tuyaBuf (ports ?stA 1) 12) * 2 ^ 8 +
                       uint (tuyaBuf (ports ?stA 1) 13))\<rparr>\<rparr>))\<lparr>ports := P'\<rparr>"
    using readUart_short_int [OF assms(1) resetA b22, of 2 x ck] by blast
  have "readUart e 0 (?A @ ?B) st = readUart e 0 ?B ?stA"
    by (simp only: readUart_append A)
  then show ?thesis
    unfolding frame_15 frame_12 B
    using P(2,3) by (simp add: processDP_2)
qed

lemma float_stale:
  "to_float (to_double (59572318 / 5)) = 11914464"
  "to_float (to_double (59572224 / 5)) = 11914445"
  by (simp_all add: float_eval)

theorem stale_bytes_in_int_witness:
  "tuyaInt (mcuTuya (readUart bridgeEnv 0
      ([0x55, 0xaa, 3, 7, 0, 8, 2, 2, 0, 4, 0, 0, 0, 0xbc, 0xd5] @
       [0x55, 0xaa, 3, 7, 0, 5, 2, 2, 0, 1, 7, 0x1a]) (initApp 256))) = 119144636 \<and>
   tgtTemp (readUart bridgeEnv 0
      ([0x55, 0xaa, 3, 7, 0, 8, 2, 2, 0, 4, 0, 0, 0, 0xbc, 0xd5] @
       [0x55, 0xaa, 3, 7, 0, 5, 2, 2, 0, 1, 7, 0x1a]) (initApp 256)) = 11914464 \<and>
   tuyaInt (mcuTuya (readUart bridgeEnv 0
      ([0x55, 0xaa, 3, 7, 0, 8, 2, 2, 0, 4, 0, 0, 0, 0, 0x19] @
       [0x55, 0xaa, 3, 7, 0, 5, 2, 2, 0, 1, 7, 0x1a]) (initApp 256))) = 119144448 \<and>
   tgtTemp (readUart bridgeEnv 0
      ([0x55, 0xaa, 3, 7, 0, 8, 2, 2, 0, 4, 0, 0, 0, 0, 0x19] @
       [0x55, 0xaa, 3, 7, 0, 5, 2, 2, 0, 1, 7, 0x1a]) (initApp 256)) = 11914445"
proof -
  have b: "BUFF_LEN bridgeEnv < 65546"
    by (simp add: bridgeEnv_def)
  show ?thesis
    using stale_bytes_in_int [OF bridgeEnv_reset b, of 2 0 0 0 "0xbc" "0xd5" 7 "0x1a"]
      stale_bytes_in_int [OF bridgeEnv_reset b, of 2 0 0 0 0 "0x19" 7 "0x1a"]
    by (simp add: to_signed_def float_stale)
qed

section \<open>The schedule driver\<close>

lemma processTuyaMsg_sched:
  "currentSlot (processTuyaMsg e m st) = currentSlot st"
  "slotDuration (processTuyaMsg e m st) = slotDuration st"
  "schedule (processTuyaMsg e m st) = schedule st"
  "startTime (processTuyaMsg e m st) = startTime st"
  "changedSlot (processTuyaMsg e m st) = changedSlot st"
  by (simp_all add: processTuyaMsg_def split: sum.splits tuya_error.splits)

lemma updateAppStatus_tgtTemp_sched:
  "currentSlot (updateAppStatus e ''tgtTemp'' v st) = currentSlot st"
  "slotDuration (updateAppStatus e ''tgtTemp'' v st) = slotDuration st"
  "schedule (updateAppStatus e ''tgtTemp'' v st) = schedule st"
  "startTime (updateAppStatus e ''tgtTemp'' v st) = startTime st"
  "changedSlot (updateAppStatus e ''tgtTemp'' v st) = changedSlot st"
  by (simp_all add: updateAppStatus_def processTuyaMsg_sched Let_def)

lemma checkSchedule_first:
  assumes "timeSynchronized e" and "currentSlot st < 0"
  shows "currentSlot (checkSchedule e st) = currentSlot (firstSlot e st)"
    and "slotDuration (checkSchedule e st) = slotDuration (firstSlot e st)"
    and "schedule (checkSchedule e st) = schedule st"
    and "startTime (checkSchedule e st) = millis e"
    and "changedSlot (checkSchedule e st) = False"
  using assms
  by (simp_all add: checkSchedule_def updateAppStatus_tgtTemp_sched Let_def firstSlot_def
      split: prod.splits)

lemma checkSchedule_next:
  assumes "timeSynchronized e" and "0 \<le> currentSlot st" and "slotElapsed e st"
  shows "currentSlot (checkSchedule e st) = currentSlot (nextSlot st)"
    and "slotDuration (checkSchedule e st) = slotDuration (nextSlot st)"
    and "schedule (checkSchedule e st) = schedule st"
    and "startTime (checkSchedule e st) = millis e"
    and "changedSlot (checkSchedule e st) = False"
  using assms
  by (simp_all add: checkSchedule_def updateAppStatus_tgtTemp_sched Let_def nextSlot_def)

text \<open>
  The scan from slot \<open>k\<close> downward stops at the largest index up to \<open>k\<close> whose second of
  the day is not after \<open>t\<close>, and ends at \<open>-1\<close> when there is none.
\<close>

lemma findSlot_spec:
  assumes "0 \<le> k"
  shows "(findSlot sch t k = - 1 \<and> (\<forall>i. 0 \<le> i \<and> i \<le> k \<longrightarrow> t < sch (nat i) SECS_COL)) \<or>
         (0 \<le> findSlot sch t k \<and> findSlot sch t k \<le> k \<and>
          sch (nat (findSlot sch t k)) SECS_COL \<le> t \<and>
          (\<forall>i. findSlot sch t k < i \<and> i \<le> k \<longrightarrow> t < sch (nat i) SECS_COL))"
  using assms
proof (induction sch t k rule: findSlot.induct)
  case (1 sch secs slot)
  show ?case
  proof (cases "sch (nat slot) SECS_COL > secs")
    case False
    then show ?thesis
      using "1.prems" by (simp add: findSlot.simps [of sch secs slot])
  next
    case gt: True
    show ?thesis
    proof (cases "slot - 1 < 0")
      case True
      then have "slot = 0" using "1.prems" by simp
      then show ?thesis
        using gt by (simp add: findSlot.simps [of sch secs 0])
    next
      case False
      then have k: "0 \<le> slot - 1" by simp
      have eq: "findSlot sch secs slot = findSlot sch secs (slot - 1)"
        using gt False by (simp add: findSlot.simps [of sch secs slot])
      have up: "t' < sch (nat i) SECS_COL" if "\<forall>j. a < j \<and> j \<le> slot - 1 \<longrightarrow> secs < sch (nat j) SECS_COL"
        "a < i" "i \<le> slot" "t' = secs" for a i t'
        using that gt by (cases "i = slot") auto
      from "1.IH" [OF gt False k] show ?thesis
        unfolding eq using gt
        by (smt (verit) nat_mono up)
    qed
  qed
qed

lemma firstSlot_fields:
  "currentSlot (firstSlot e st) =
     (let found = findSlot (schedule st) (currentSecs e) 5
      in if found < 0 \<or> found = 5 then 5 else found)"
  "slotDuration (firstSlot e st) =
     (let found = findSlot (schedule st) (currentSecs e) 5
      in if found < 0 \<or> found = 5
         then (let d = schedule st 0 SECS_COL - currentSecs e
               in if d < 0 then d + 86400 else d)
         else schedule st (nat (found + 1)) SECS_COL - currentSecs e) * 1000"
  by (simp_all add: firstSlot_def USED_SLOTS_def SECS_IN_DAY_def Let_def split: prod.splits)

text \<open>
  C5. On the first call of \<^verbatim>\<open>checkSchedule\<close> with the time synchronised (no slot chosen
  yet), with \<open>t\<close> the second of the day: when some slot of 0..5 starts at or before \<open>t\<close>,
  the current slot is the largest such index; when none does or slot 5 does, the current
  slot is 5 and the duration is the start of slot 0 minus \<open>t\<close>, plus 86400 when that is
  negative (kept in milliseconds, hence the factor 1000). The statement needs no order
  of the slots.
\<close>

theorem first_call_slot:
  assumes "timeSynchronized e" and "currentSlot st < 0"
  shows "((\<exists>i<6. schedule st i SECS_COL \<le> currentSecs e) \<longrightarrow>
            currentSlot (checkSchedule e st) =
              int (Max {i. i < 6 \<and> schedule st i SECS_COL \<le> currentSecs e})) \<and>
         ((\<forall>i<6. currentSecs e < schedule st i SECS_COL) \<or>
          schedule st 5 SECS_COL \<le> currentSecs e \<longrightarrow>
            currentSlot (checkSchedule e st) = 5 \<and>
            slotDuration (checkSchedule e st) =
              (let d = schedule st 0 SECS_COL - currentSecs e
               in if d < 0 then d + 86400 else d) * 1000)"
proof -
  let ?sec = "\<lambda>i. schedule st i SECS_COL"
  let ?t = "currentSecs e"
  let ?r = "findSlot (schedule st) ?t 5"
  let ?Q = "{i. i < 6 \<and> ?sec i \<le> ?t}"
  note cs = checkSchedule_first [OF assms]
  consider (none) "?r = - 1" "\<forall>i. 0 \<le> i \<and> i \<le> 5 \<longrightarrow> ?t < ?sec (nat i)"
    | (some) "0 \<le> ?r" "?r \<le> 5" "?sec (nat ?r) \<le> ?t"
        "\<forall>i. ?r < i \<and> i \<le> 5 \<longrightarrow> ?t < ?sec (nat i)"
    using findSlot_spec [of 5 "schedule st" ?t] by auto
  then show ?thesis
  proof cases
    case none
    have no: "?t < ?sec i" if "i < 6" for i
      using none(2) [rule_format, of "int i"] that by simp
    then have a: "\<not> (\<exists>i<6. ?sec i \<le> ?t)"
      by (meson not_le)
    have b: "currentSlot (checkSchedule e st) = 5 \<and>
        slotDuration (checkSchedule e st) =
          (let d = ?sec 0 - ?t in if d < 0 then d + 86400 else d) * 1000"
      using none(1) by (simp add: cs firstSlot_fields)
    have A: "(\<exists>i<6. ?sec i \<le> ?t) \<longrightarrow> currentSlot (checkSchedule e st) = int (Max ?Q)"
      by (simp only: a) simp
    show ?thesis
      by (rule conjI, rule A, rule impI, rule b)
  next
    case some
    have above: "?t < ?sec i" if "nat ?r < i" "i < 6" for i
      using some(4) [rule_format, of "int i"] that some(1) by simp
    have mem: "nat ?r \<in> ?Q"
      using some(1,2,3) by simp
    have "Max ?Q = nat ?r"
    proof (rule Max_eqI)
      show "finite ?Q" by simp
      show "nat ?r \<in> ?Q" by (rule mem)
      show "y \<le> nat ?r" if "y \<in> ?Q" for y
      proof (rule ccontr)
        assume "\<not> y \<le> nat ?r"
        then have "nat ?r < y" by simp
        moreover have "y < 6" and "?sec y \<le> ?t"
          using that by simp_all
        ultimately show False
          using above [of y] by simp
      qed
    qed
    then have max: "int (Max ?Q) = ?r"
      using some(1) by simp
    have slot: "currentSlot (checkSchedule e st) = ?r"
      using some(1) by (simp add: cs firstSlot_fields Let_def)
    have A: "(\<exists>i<6. ?sec i \<le> ?t) \<longrightarrow> currentSlot (checkSchedule e st) = int (Max ?Q)"
      using slot max by simp
    have B: "currentSlot (checkSchedule e st) = 5 \<and>
        slotDuration (checkSchedule e st) =
          (let d = ?sec 0 - ?t in if d < 0 then d + 86400 else d) * 1000"
      if "(\<forall>i<6. ?t < ?sec i) \<or> ?sec 5 \<le> ?t"
    proof -
      have "\<not> (\<forall>i<6. ?t < ?sec i)"
      proof
        assume h: "\<forall>i<6. ?t < ?sec i"
        have "nat ?r < 6" and "?sec (nat ?r) \<le> ?t"
          using mem by simp_all
        then show False
          using h [rule_format, of "nat ?r"] by simp
      qed
      then have five: "?sec 5 \<le> ?t"
        using that by blast
      have "\<not> nat ?r < 5"
      proof
        assume "nat ?r < 5"
        then have "?t < ?sec 5" by (rule above) simp
        then show False using five by simp
      qed
      then have "?r = 5"
        using some(1,2) by simp
      then show ?thesis
        by (simp add: cs firstSlot_fields Let_def)
    qed
    show ?thesis
      by (rule conjI, rule A, rule impI, erule B)
  qed
qed

theorem first_call_slot_witness:
  "currentSlot (checkSchedule bridgeEnv ((initApp 256)\<lparr>schedule := weekdaySchedule\<rparr>)) = 5 \<and>
   slotDuration (checkSchedule bridgeEnv ((initApp 256)\<lparr>schedule := weekdaySchedule\<rparr>)) =
     25200 * 1000"
proof -
  let ?st = "(initApp 256)\<lparr>schedule := weekdaySchedule\<rparr>"
  have h1: "timeSynchronized bridgeEnv"
    by (simp add: bridgeEnv_def)
  have h2: "currentSlot ?st < 0"
    by (simp add: initApp_def)
  have h3: "(\<forall>i<6. currentSecs bridgeEnv < schedule ?st i SECS_COL) \<or>
      schedule ?st 5 SECS_COL \<le> currentSecs bridgeEnv"
    by (simp add: bridgeEnv_def weekdaySchedule_def)
  have "currentSlot (checkSchedule bridgeEnv ?st) = 5 \<and>
      slotDuration (checkSchedule bridgeEnv ?st) =
        (let d = schedule ?st 0 SECS_COL - currentSecs bridgeEnv
         in if d < 0 then d + 86400 else d) * 1000"
    using first_call_slot [OF h1 h2] h3 by (rule conjunct2 [THEN mp])
  then show ?thesis
    by (simp add: bridgeEnv_def weekdaySchedule_def)
qed

section \<open>One cycle of the schedule\<close>

lemma checkSchedule_advance:
  assumes "timeSynchronized e" and "0 \<le> currentSlot st" and "slotElapsed e st"
  shows "currentSlot (checkSchedule e st) = (if 5 \<le> currentSlot st then 0 else currentSlot st + 1)"
    and "slotDuration (checkSchedule e st) =
          (if 5 \<le> currentSlot st then schedule st 1 SECS_COL - schedule st 0 SECS_COL
           else if currentSlot st + 1 < 5
             then schedule st (nat (currentSlot st + 2)) SECS_COL -
                  schedule st (nat (currentSlot st + 1)) SECS_COL
             else 86400 + schedule st 0 SECS_COL -
                  schedule st (nat (currentSlot st + 1)) SECS_COL) * 1000"
    and "schedule (checkSchedule e st) = schedule st"
    and "startTime (checkSchedule e st) = millis e"
  using assms(2)
  by (simp_all add: checkSchedule_next [OF assms] nextSlot_def USED_SLOTS_def SECS_IN_DAY_def
      Let_def add.commute)

lemma six_list:
  assumes "length es = 6"
  obtains e1 e2 e3 e4 e5 e6 where "es = [e1, e2, e3, e4, e5, e6]"
  using assms by (auto simp add: length_Suc_conv numeral_eq_Suc)

lemma cycle_sum:
  assumes six: "length es = 6" and adv: "advances es s" and lo: "0 \<le> currentSlot s"
    and hi: "currentSlot s < 6"
  shows "sum_list (map slotDuration (runSchedule es s)) = 86400 * 1000 \<and>
         currentSlot (last (runSchedule es s)) = currentSlot s"
proof -
  obtain e1 e2 e3 e4 e5 e6 where es: "es = [e1, e2, e3, e4, e5, e6]"
    using six by (rule six_list)
  define s1 where "s1 = checkSchedule e1 s"
  define s2 where "s2 = checkSchedule e2 s1"
  define s3 where "s3 = checkSchedule e3 s2"
  define s4 where "s4 = checkSchedule e4 s3"
  define s5 where "s5 = checkSchedule e5 s4"
  define s6 where "s6 = checkSchedule e6 s5"
  note sd = s1_def s2_def s3_def s4_def s5_def s6_def
  have a: "timeSynchronized e1" "slotElapsed e1 s" "timeSynchronized e2" "slotElapsed e2 s1"
    "timeSynchronized e3" "slotElapsed e3 s2" "timeSynchronized e4" "slotElapsed e4 s3"
    "timeSynchronized e5" "slotElapsed e5 s4" "timeSynchronized e6" "slotElapsed e6 s5"
    using adv by (simp_all add: es sd)
  have run: "runSchedule es s = [s1, s2, s3, s4, s5, s6]"
    by (simp add: es sd)
  note c1 = checkSchedule_advance [OF a(1) lo a(2), folded s1_def]
  have l1: "0 \<le> currentSlot s1" using lo by (simp add: c1(1))
  note c2 = checkSchedule_advance [OF a(3) l1 a(4), folded s2_def]
  have l2: "0 \<le> currentSlot s2" using l1 by (simp add: c2(1))
  note c3 = checkSchedule_advance [OF a(5) l2 a(6), folded s3_def]
  have l3: "0 \<le> currentSlot s3" using l2 by (simp add: c3(1))
  note c4 = checkSchedule_advance [OF a(7) l3 a(8), folded s4_def]
  have l4: "0 \<le> currentSlot s4" using l3 by (simp add: c4(1))
  note c5 = checkSchedule_advance [OF a(9) l4 a(10), folded s5_def]
  have l5: "0 \<le> currentSlot s5" using l4 by (simp add: c5(1))
  note c6 = checkSchedule_advance [OF a(11) l5 a(12), folded s6_def]
  have sch: "schedule s1 = schedule s" "schedule s2 = schedule s" "schedule s3 = schedule s"
    "schedule s4 = schedule s" "schedule s5 = schedule s"
    by (simp_all add: c1(3) c2(3) c3(3) c4(3) c5(3))
  consider "currentSlot s = 0" | "currentSlot s = 1" | "currentSlot s = 2"
    | "currentSlot s = 3" | "currentSlot s = 4" | "currentSlot s = 5"
    using lo hi by arith
  then show ?thesis
  proof cases
    case 1
    have k: "currentSlot s1 = 1" "currentSlot s2 = 2" "currentSlot s3 = 3" "currentSlot s4 = 4"
      "currentSlot s5 = 5"
      by (simp_all add: c1(1) c2(1) c3(1) c4(1) c5(1) 1)
    show ?thesis
      by (simp add: run c1(2) c2(2) c3(2) c4(2) c5(2) c6(2) c6(1) sch k 1)
  next
    case 2
    have k: "currentSlot s1 = 2" "currentSlot s2 = 3" "currentSlot s3 = 4" "currentSlot s4 = 5"
      "currentSlot s5 = 0"
      by (simp_all add: c1(1) c2(1) c3(1) c4(1) c5(1) 2)
    show ?thesis
      by (simp add: run c1(2) c2(2) c3(2) c4(2) c5(2) c6(2) c6(1) sch k 2)
  next
    case 3
    have k: "currentSlot s1 = 3" "currentSlot s2 = 4" "currentSlot s3 = 5" "currentSlot s4 = 0"
      "currentSlot s5 = 1"
      by (simp_all add: c1(1) c2(1) c3(1) c4(1) c5(1) 3)
    show ?thesis
      by (simp add: run c1(2) c2(2) c3(2) c4(2) c5(2) c6(2) c6(1) sch k 3)
  next
    case 4
    have k: "currentSlot s1 = 4" "currentSlot s2 = 5" "currentSlot s3 = 0" "currentSlot s4 = 1"
      "currentSlot s5 = 2"
      by (simp_all add: c1(1) c2(1) c3(1) c4(1) c5(1) 4)
    show ?thesis
      by (simp add: run c1(2) c2(2) c3(2) c4(2) c5(2) c6(2) c6(1) sch k 4)
  next
    case 5
    have k: "currentSlot s1 = 5" "currentSlot s2 = 0" "currentSlot s3 = 1" "currentSlot s4 = 2"
      "currentSlot s5 = 3"
      by (simp_all add: c1(1) c2(1) c3(1) c4(1) c5(1) 5)
    show ?thesis
      by (simp add: run c1(2) c2(2) c3(2) c4(2) c5(2) c6(2) c6(1) sch k 5)
  next
    case 6
    have k: "currentSlot s1 = 0" "currentSlot s2 = 1" "currentSlot s3 = 2" "currentSlot s4 = 3"
      "currentSlot s5 = 4"
      by (simp_all add: c1(1) c2(1) c3(1) c4(1) c5(1) 6)
    show ?thesis
      by (simp add: run c1(2) c2(2) c3(2) c4(2) c5(2) c6(2) c6(1) sch k 6)
  qed
qed


lemma sorted_slots:
  assumes "\<forall>i<5. sec i \<le> (sec (i + 1) :: int)" and "i \<le> j" and "j < (6 :: nat)"
  shows "sec i \<le> sec j"
  using assms(2,3)
proof (induction j)
  case 0
  then show ?case by simp
next
  case (Suc j)
  show ?case
  proof (cases "i = Suc j")
    case True
    then show ?thesis by simp
  next
    case False
    then have "sec i \<le> sec j"
      using Suc by simp
    moreover have "sec j \<le> sec (Suc j)"
      using assms(1) [rule_format, of j] Suc.prems by simp
    ultimately show ?thesis by simp
  qed
qed

lemma slotInForce_unique:
  assumes sorted: "\<forall>i<5. sec i \<le> (sec (i + 1) :: int)"
    and i: "i < (6 :: nat)" "slotInForce sec t i" and j: "j < (6 :: nat)" "slotInForce sec t j"
  shows "i = j"
proof -
  have lt: False if a: "a < b" "b < 6" "slotInForce sec t a" "slotInForce sec t b" for a b
  proof -
    have a5: "a < 5" using a(1,2) by simp
    then have ta: "sec a \<le> t" "t < sec (a + 1)"
      using a(3) by (simp_all add: slotInForce_def)
    have m1: "sec (a + 1) \<le> sec b"
      using sorted by (rule sorted_slots) (use a in simp_all)
    have m2: "sec 0 \<le> sec a"
      using sorted by (rule sorted_slots) (use a in simp_all)
    have "sec b \<le> t \<or> t < sec 0"
      using a(4) by (simp add: slotInForce_def split: if_splits)
    then show False
      using ta m1 m2 by arith
  qed
  show ?thesis
  proof (rule ccontr)
    assume "i \<noteq> j"
    then consider "i < j" | "j < i" by arith
    then show False
      using lt [of i j] lt [of j i] i j by cases simp_all
  qed
qed

lemma first_call_in_force:
  assumes "timeSynchronized e" and "currentSlot st < 0"
  shows "0 \<le> currentSlot (checkSchedule e st) \<and> currentSlot (checkSchedule e st) < 6 \<and>
         slotInForce (\<lambda>i. schedule st i SECS_COL) (currentSecs e)
           (nat (currentSlot (checkSchedule e st)))"
proof -
  let ?sec = "\<lambda>i. schedule st i SECS_COL"
  let ?t = "currentSecs e"
  let ?r = "findSlot (schedule st) ?t 5"
  note cs = checkSchedule_first [OF assms]
  consider (none) "?r = - 1" "\<forall>i. 0 \<le> i \<and> i \<le> 5 \<longrightarrow> ?t < ?sec (nat i)"
    | (some) "0 \<le> ?r" "?r \<le> 5" "?sec (nat ?r) \<le> ?t"
        "\<forall>i. ?r < i \<and> i \<le> 5 \<longrightarrow> ?t < ?sec (nat i)"
    using findSlot_spec [of 5 "schedule st" ?t] by auto
  then show ?thesis
  proof cases
    case none
    have "?t < ?sec 0"
      using none(2) [rule_format, of 0] by simp
    moreover have "currentSlot (checkSchedule e st) = 5"
      using none(1) by (simp add: cs firstSlot_fields)
    ultimately show ?thesis
      by (simp add: slotInForce_def)
  next
    case some
    have slot: "currentSlot (checkSchedule e st) = ?r"
      using some(1) by (simp add: cs firstSlot_fields Let_def)
    show ?thesis
    proof (cases "?r = 5")
      case True
      then show ?thesis
        using some(3) by (simp add: slot slotInForce_def)
    next
      case False
      then have r5: "nat ?r < 5" using some(1,2) by simp
      have "?t < ?sec (nat (?r + 1))"
        using some(4) [rule_format, of "?r + 1"] some(1,2) False by simp
      moreover have "nat (?r + 1) = nat ?r + 1"
        using some(1) by simp
      ultimately have "?t < ?sec (nat ?r + 1)" by simp
      then show ?thesis
        using some(1,2,3) r5 unfolding slot slotInForce_def by simp
    qed
  qed
qed

lemma run_length: "length (runSchedule es s) = length es"
  by (induction es arbitrary: s) simp_all

text \<open>
  Each advance moves to the next slot, slot 0 after slot 5, and sets the duration to the
  gap between the start of the slot entered and the start of the slot after it.
\<close>

lemma run_nth:
  assumes "advances es s" and "0 \<le> currentSlot s" and "currentSlot s < 6" and "j < length es"
  shows "currentSlot (runSchedule es s ! j) = (currentSlot s + 1 + int j) mod 6 \<and>
         slotDuration (runSchedule es s ! j) =
           slotGap (\<lambda>i. schedule s i SECS_COL) (nat ((currentSlot s + 1 + int j) mod 6)) * 1000 \<and>
         schedule (runSchedule es s ! j) = schedule s"
  using assms
proof (induction es arbitrary: s j)
  case Nil
  then show ?case by simp
next
  case (Cons e es)
  let ?s' = "checkSchedule e s"
  have a: "timeSynchronized e" "slotElapsed e s" "advances es ?s'"
    using Cons.prems(1) by simp_all
  note c = checkSchedule_advance [OF a(1) Cons.prems(2) a(2)]
  have slot: "currentSlot ?s' = (currentSlot s + 1) mod 6"
  proof (cases "5 \<le> currentSlot s")
    case True
    then have "currentSlot s = 5" using Cons.prems(3) by simp
    then show ?thesis by (simp add: c(1))
  next
    case False
    then show ?thesis using Cons.prems(2) by (simp add: c(1))
  qed
  have lo: "0 \<le> currentSlot ?s'" and hi: "currentSlot ?s' < 6"
    by (simp_all add: slot)
  have dur: "slotDuration ?s' =
      slotGap (\<lambda>i. schedule s i SECS_COL) (nat ((currentSlot s + 1) mod 6)) * 1000"
  proof (cases "5 \<le> currentSlot s")
    case True
    then have "currentSlot s = 5" using Cons.prems(3) by simp
    then show ?thesis
      by (simp add: c(2) slotGap_def)
  next
    case False
    then have m: "(currentSlot s + 1) mod 6 = currentSlot s + 1"
      using Cons.prems(2) by simp
    have n: "nat (currentSlot s + 2) = nat (currentSlot s + 1) + 1"
      using Cons.prems(2) by simp
    show ?thesis
    proof (cases "currentSlot s + 1 < 5")
      case True
      then have "nat (currentSlot s + 1) < 5" by simp
      then show ?thesis
        using False True by (simp add: c(2) m n slotGap_def)
    next
      case f: False
      then have "currentSlot s = 4" using False by simp
      then show ?thesis
        by (simp add: c(2) slotGap_def)
    qed
  qed
  show ?case
  proof (cases j)
    case 0
    then show ?thesis
      by (simp add: slot dur c(3))
  next
    case (Suc j')
    then have j': "j' < length es"
      using Cons.prems(4) by simp
    have "((currentSlot s + 1) mod 6 + (1 + int j')) mod 6 =
        ((currentSlot s + 1) + (1 + int j')) mod 6"
      by (rule mod_add_left_eq)
    then have m: "((currentSlot s + 1) mod 6 + 1 + int j') mod 6 =
        (currentSlot s + 1 + int (Suc j')) mod 6"
      by (simp add: add.assoc)
    show ?thesis
      using Cons.IH [OF a(3) lo hi j'] by (simp add: Suc slot m c(3))
  qed
qed

lemma slotGap_nonneg:
  assumes "\<forall>i<5. sec i \<le> (sec (i + 1) :: int)" and "\<forall>i<6. 0 \<le> sec i \<and> sec i \<le> 86399"
    and "i < (6 :: nat)"
  shows "0 \<le> slotGap sec i"
proof (cases "i < 5")
  case True
  then show ?thesis
    using assms(1) by (simp add: slotGap_def)
next
  case False
  have "0 \<le> sec 0" "sec 5 \<le> 86399"
    using assms(2) by simp_all
  then show ?thesis
    using False by (simp add: slotGap_def)
qed

text \<open>
  C6. Schedule coverage. For slot start times in 0..86399 that are sorted, and a time of
  day in 0..86399: the first call selects a slot \<open>k\<close> in 0..5, and it selects slot \<open>i\<close> exactly
  when slot \<open>i\<close> is the one in force at that time, so exactly one slot is selected. The six
  advances that follow visit the slots \<open>k + 1, k + 2, \<dots>\<close> (modulo 6) in turn, each one once,
  and end in slot \<open>k\<close> again; the duration computed on entering a slot is the gap from its
  start to the start of the slot after it, in milliseconds, and is not negative; and the
  six durations add up to 86400 s, held as 86400000 ms.
\<close>

theorem schedule_cycle:
  assumes sync: "timeSynchronized e" and first: "currentSlot st < 0"
    and sorted: "\<forall>i<5. schedule st i SECS_COL \<le> schedule st (i + 1) SECS_COL"
    and range: "\<forall>i<6. 0 \<le> schedule st i SECS_COL \<and> schedule st i SECS_COL \<le> 86399"
    and t: "0 \<le> currentSecs e \<and> currentSecs e \<le> 86399"
    and six: "length es = 6" and adv: "advances es (checkSchedule e st)"
  shows "0 \<le> currentSlot (checkSchedule e st) \<and> currentSlot (checkSchedule e st) < 6 \<and>
         (\<forall>i<6. slotInForce (\<lambda>i. schedule st i SECS_COL) (currentSecs e) i \<longleftrightarrow>
                  currentSlot (checkSchedule e st) = int i) \<and>
         (\<forall>j<6. currentSlot (runSchedule es (checkSchedule e st) ! j) =
                    (currentSlot (checkSchedule e st) + 1 + int j) mod 6 \<and>
                 slotDuration (runSchedule es (checkSchedule e st) ! j) =
                    slotGap (\<lambda>i. schedule st i SECS_COL)
                      (nat ((currentSlot (checkSchedule e st) + 1 + int j) mod 6)) * 1000 \<and>
                 0 \<le> slotDuration (runSchedule es (checkSchedule e st) ! j)) \<and>
         sum_list (map slotDuration (runSchedule es (checkSchedule e st))) = 86400 * 1000 \<and>
         currentSlot (last (runSchedule es (checkSchedule e st))) =
           currentSlot (checkSchedule e st)"
proof -
  let ?s = "checkSchedule e st"
  let ?sec = "\<lambda>i. schedule st i SECS_COL"
  note f = first_call_in_force [OF sync first]
  have lo: "0 \<le> currentSlot ?s" and hi: "currentSlot ?s < 6"
    and inforce: "slotInForce ?sec (currentSecs e) (nat (currentSlot ?s))"
    using f by simp_all
  have sch: "schedule ?s = schedule st"
    using sync first by (rule checkSchedule_first(3))
  have sel: "slotInForce ?sec (currentSecs e) i \<longleftrightarrow> currentSlot ?s = int i" if "i < 6" for i
  proof
    assume "slotInForce ?sec (currentSecs e) i"
    then have "i = nat (currentSlot ?s)"
      using sorted that inforce lo hi by (intro slotInForce_unique [of ?sec i "currentSecs e"]) simp_all
    then show "currentSlot ?s = int i"
      using lo by simp
  next
    assume "currentSlot ?s = int i"
    then show "slotInForce ?sec (currentSecs e) i"
      using inforce by simp
  qed
  have visit: "currentSlot (runSchedule es ?s ! j) = (currentSlot ?s + 1 + int j) mod 6 \<and>
      slotDuration (runSchedule es ?s ! j) =
        slotGap ?sec (nat ((currentSlot ?s + 1 + int j) mod 6)) * 1000 \<and>
      0 \<le> slotDuration (runSchedule es ?s ! j)" if "j < 6" for j
  proof -
    have j: "j < length es" using that six by simp
    note n = run_nth [OF adv lo hi j, unfolded sch]
    have "nat ((currentSlot ?s + 1 + int j) mod 6) < 6"
      by simp
    then have "0 \<le> slotGap ?sec (nat ((currentSlot ?s + 1 + int j) mod 6))"
      by (rule slotGap_nonneg [OF sorted range])
    then show ?thesis
      using n by simp
  qed
  have sum: "sum_list (map slotDuration (runSchedule es ?s)) = 86400 * 1000"
    using cycle_sum [OF six adv lo hi] by simp
  have cyc: "currentSlot (last (runSchedule es ?s)) = currentSlot ?s"
    using cycle_sum [OF six adv lo hi] by simp
  have S: "\<forall>i<6. slotInForce ?sec (currentSecs e) i \<longleftrightarrow> currentSlot ?s = int i"
    by (intro allI impI) (rule sel)
  have V: "\<forall>j<6. currentSlot (runSchedule es ?s ! j) = (currentSlot ?s + 1 + int j) mod 6 \<and>
      slotDuration (runSchedule es ?s ! j) =
        slotGap ?sec (nat ((currentSlot ?s + 1 + int j) mod 6)) * 1000 \<and>
      0 \<le> slotDuration (runSchedule es ?s ! j)"
    by (intro allI impI) (rule visit)
  show ?thesis
    by (intro conjI) (rule lo hi S V sum cyc)+
qed

lemma advancesI:
  "timeSynchronized e \<Longrightarrow> slotElapsed e st \<Longrightarrow> advances es (checkSchedule e st) \<Longrightarrow>
   advances (e # es) st"
  by simp

lemma weekday_first:
  "currentSlot (checkSchedule bridgeEnv ((initApp 256)\<lparr>schedule := weekdaySchedule\<rparr>)) = 5"
  "slotDuration (checkSchedule bridgeEnv ((initApp 256)\<lparr>schedule := weekdaySchedule\<rparr>)) =
     25200000"
  "startTime (checkSchedule bridgeEnv ((initApp 256)\<lparr>schedule := weekdaySchedule\<rparr>)) = 0"
  "schedule (checkSchedule bridgeEnv ((initApp 256)\<lparr>schedule := weekdaySchedule\<rparr>)) =
     weekdaySchedule"
proof -
  let ?st = "(initApp 256)\<lparr>schedule := weekdaySchedule\<rparr>"
  have h1: "timeSynchronized bridgeEnv"
    by (simp add: bridgeEnv_def)
  have h2: "currentSlot ?st < 0"
    by (simp add: initApp_def)
  have f: "findSlot weekdaySchedule 82800 5 = 5"
    by (simp add: findSlot.simps [of _ _ 5] weekdaySchedule_def SECS_COL_def)
  have t: "currentSecs bridgeEnv = 82800" "millis bridgeEnv = 0"
    by (simp_all add: bridgeEnv_def)
  note cs = checkSchedule_first [OF h1 h2]
  show "currentSlot (checkSchedule bridgeEnv ?st) = 5"
    by (simp add: cs firstSlot_fields t f)
  show "slotDuration (checkSchedule bridgeEnv ?st) = 25200000"
    by (simp add: cs firstSlot_fields t f weekdaySchedule_def SECS_COL_def)
  show "startTime (checkSchedule bridgeEnv ?st) = 0"
    by (simp add: cs t)
  show "schedule (checkSchedule bridgeEnv ?st) = weekdaySchedule"
    by (simp add: cs)
qed

lemma weekday_tick:
  assumes "currentSlot s = k" and "0 \<le> k" and "k < 6" and "slotDuration s = d"
    and "startTime s = m0" and "schedule s = weekdaySchedule" and "word_of_int d < m - m0"
  shows "timeSynchronized (bridgeEnv\<lparr>millis := m\<rparr>)"
    and "slotElapsed (bridgeEnv\<lparr>millis := m\<rparr>) s"
    and "currentSlot (checkSchedule (bridgeEnv\<lparr>millis := m\<rparr>) s) = (if 5 \<le> k then 0 else k + 1)"
    and "slotDuration (checkSchedule (bridgeEnv\<lparr>millis := m\<rparr>) s) =
          (if 5 \<le> k then 9000 else if k + 1 < 5
             then weekdaySchedule (nat (k + 2)) SECS_COL - weekdaySchedule (nat (k + 1)) SECS_COL
             else 86400 + 21600 - weekdaySchedule (nat (k + 1)) SECS_COL) * 1000"
    and "startTime (checkSchedule (bridgeEnv\<lparr>millis := m\<rparr>) s) = m"
    and "schedule (checkSchedule (bridgeEnv\<lparr>millis := m\<rparr>) s) = weekdaySchedule"
proof -
  let ?e = "bridgeEnv\<lparr>millis := m\<rparr>"
  show a: "timeSynchronized ?e"
    by (simp add: bridgeEnv_def)
  show b: "slotElapsed ?e s"
    using assms(7) by (simp add: slotElapsed_def assms(4,5))
  have c: "0 \<le> currentSlot s"
    using assms(1,2) by simp
  note adv = checkSchedule_advance [OF a c b]
  show "currentSlot (checkSchedule ?e s) = (if 5 \<le> k then 0 else k + 1)"
    by (simp add: adv assms(1))
  show "slotDuration (checkSchedule ?e s) =
          (if 5 \<le> k then 9000 else if k + 1 < 5
             then weekdaySchedule (nat (k + 2)) SECS_COL - weekdaySchedule (nat (k + 1)) SECS_COL
             else 86400 + 21600 - weekdaySchedule (nat (k + 1)) SECS_COL) * 1000"
    by (simp add: adv assms(1,6) weekdaySchedule_def SECS_COL_def)
  show "startTime (checkSchedule ?e s) = m"
    by (simp add: adv)
  show "schedule (checkSchedule ?e s) = weekdaySchedule"
    by (simp add: adv assms(6))
qed

lemma weekday_advances:
  "advances cycleTicks (checkSchedule bridgeEnv ((initApp 256)\<lparr>schedule := weekdaySchedule\<rparr>))"
proof -
  define s0 where "s0 = checkSchedule bridgeEnv ((initApp 256)\<lparr>schedule := weekdaySchedule\<rparr>)"
  define s1 where "s1 = checkSchedule (bridgeEnv\<lparr>millis := 25200001\<rparr>) s0"
  define s2 where "s2 = checkSchedule (bridgeEnv\<lparr>millis := 34200002\<rparr>) s1"
  define s3 where "s3 = checkSchedule (bridgeEnv\<lparr>millis := 36000003\<rparr>) s2"
  define s4 where "s4 = checkSchedule (bridgeEnv\<lparr>millis := 48600004\<rparr>) s3"
  define s5 where "s5 = checkSchedule (bridgeEnv\<lparr>millis := 63000005\<rparr>) s4"
  have f0: "currentSlot s0 = 5" "slotDuration s0 = 25200000" "startTime s0 = 0"
    "schedule s0 = weekdaySchedule"
    unfolding s0_def by (rule weekday_first)+
  note t1 = weekday_tick [OF f0(1) _ _ f0(2,3,4), of 25200001, folded s1_def, simplified]
  have f1: "currentSlot s1 = 0" "slotDuration s1 = 9000000" "startTime s1 = 25200001"
    "schedule s1 = weekdaySchedule"
    by (simp_all add: t1)
  note t2 = weekday_tick [OF f1(1) _ _ f1(2,3,4), of 34200002, folded s2_def, simplified]
  have f2: "currentSlot s2 = 1" "slotDuration s2 = 1800000" "startTime s2 = 34200002"
    "schedule s2 = weekdaySchedule"
    by (simp_all add: t2 weekdaySchedule_def SECS_COL_def)
  note t3 = weekday_tick [OF f2(1) _ _ f2(2,3,4), of 36000003, folded s3_def, simplified]
  have f3: "currentSlot s3 = 2" "slotDuration s3 = 12600000" "startTime s3 = 36000003"
    "schedule s3 = weekdaySchedule"
    by (simp_all add: t3 weekdaySchedule_def SECS_COL_def)
  note t4 = weekday_tick [OF f3(1) _ _ f3(2,3,4), of 48600004, folded s4_def, simplified]
  have f4: "currentSlot s4 = 3" "slotDuration s4 = 14400000" "startTime s4 = 48600004"
    "schedule s4 = weekdaySchedule"
    by (simp_all add: t4 weekdaySchedule_def SECS_COL_def)
  note t5 = weekday_tick [OF f4(1) _ _ f4(2,3,4), of 63000005, folded s5_def, simplified]
  have f5: "currentSlot s5 = 4" "slotDuration s5 = 19800000" "startTime s5 = 63000005"
    "schedule s5 = weekdaySchedule"
    by (simp_all add: t5 weekdaySchedule_def SECS_COL_def)
  note t6 = weekday_tick [OF f5(1) _ _ f5(2,3,4), of 82800006, simplified]
  have a6: "advances [bridgeEnv\<lparr>millis := 82800006\<rparr>] s5"
    by (rule advancesI) (simp_all add: t6)
  have a5: "advances [bridgeEnv\<lparr>millis := 63000005\<rparr>, bridgeEnv\<lparr>millis := 82800006\<rparr>] s4"
    by (rule advancesI [OF _ _ a6 [unfolded s5_def]]) (simp_all add: t5)
  have a4: "advances [bridgeEnv\<lparr>millis := 48600004\<rparr>, bridgeEnv\<lparr>millis := 63000005\<rparr>,
      bridgeEnv\<lparr>millis := 82800006\<rparr>] s3"
    by (rule advancesI [OF _ _ a5 [unfolded s4_def]]) (simp_all add: t4)
  have a3: "advances [bridgeEnv\<lparr>millis := 36000003\<rparr>, bridgeEnv\<lparr>millis := 48600004\<rparr>,
      bridgeEnv\<lparr>millis := 63000005\<rparr>, bridgeEnv\<lparr>millis := 82800006\<rparr>] s2"
    by (rule advancesI [OF _ _ a4 [unfolded s3_def]]) (simp_all add: t3)
  have a2: "advances [bridgeEnv\<lparr>millis := 34200002\<rparr>, bridgeEnv\<lparr>millis := 36000003\<rparr>,
      bridgeEnv\<lparr>millis := 48600004\<rparr>, bridgeEnv\<lparr>millis := 63000005\<rparr>,
      bridgeEnv\<lparr>millis := 82800006\<rparr>] s1"
    by (rule advancesI [OF _ _ a3 [unfolded s2_def]]) (simp_all add: t2)
  have a1: "advances [bridgeEnv\<lparr>millis := 25200001\<rparr>, bridgeEnv\<lparr>millis := 34200002\<rparr>,
      bridgeEnv\<lparr>millis := 36000003\<rparr>, bridgeEnv\<lparr>millis := 48600004\<rparr>,
      bridgeEnv\<lparr>millis := 63000005\<rparr>, bridgeEnv\<lparr>millis := 82800006\<rparr>] s0"
    by (rule advancesI [OF _ _ a2 [unfolded s1_def]]) (simp_all add: t1)
  then show ?thesis
    by (simp only: cycleTicks_def s0_def list.map)
qed

lemma weekday_hyps:
  "\<forall>i<5. weekdaySchedule i SECS_COL \<le> weekdaySchedule (i + 1) SECS_COL"
  "\<forall>i<6. 0 \<le> weekdaySchedule i SECS_COL \<and> weekdaySchedule i SECS_COL \<le> 86399"
proof -
  have c: "i = 0 \<or> i = 1 \<or> i = 2 \<or> i = 3 \<or> i = 4 \<or> i = 5" if "i < 6" for i :: nat
    using that by arith
  show "\<forall>i<5. weekdaySchedule i SECS_COL \<le> weekdaySchedule (i + 1) SECS_COL"
  proof (intro allI impI)
    fix i :: nat assume "i < 5"
    then have "i = 0 \<or> i = 1 \<or> i = 2 \<or> i = 3 \<or> i = 4" by arith
    then show "weekdaySchedule i SECS_COL \<le> weekdaySchedule (i + 1) SECS_COL"
      by (auto simp add: weekdaySchedule_def)
  qed
  show "\<forall>i<6. 0 \<le> weekdaySchedule i SECS_COL \<and> weekdaySchedule i SECS_COL \<le> 86399"
  proof (intro allI impI)
    fix i :: nat assume "i < 6"
    then show "0 \<le> weekdaySchedule i SECS_COL \<and> weekdaySchedule i SECS_COL \<le> 86399"
      using c [of i] by (auto simp add: weekdaySchedule_def)
  qed
qed

theorem schedule_cycle_witness:
  "currentSlot (checkSchedule bridgeEnv ((initApp 256)\<lparr>schedule := weekdaySchedule\<rparr>)) = 5 \<and>
   slotInForce (\<lambda>i. weekdaySchedule i SECS_COL) 82800 5 \<and>
   currentSlot (runSchedule cycleTicks
     (checkSchedule bridgeEnv ((initApp 256)\<lparr>schedule := weekdaySchedule\<rparr>)) ! 0) = 0 \<and>
   slotDuration (runSchedule cycleTicks
     (checkSchedule bridgeEnv ((initApp 256)\<lparr>schedule := weekdaySchedule\<rparr>)) ! 0) = 9000000 \<and>
   currentSlot (runSchedule cycleTicks
     (checkSchedule bridgeEnv ((initApp 256)\<lparr>schedule := weekdaySchedule\<rparr>)) ! 5) = 5 \<and>
   slotDuration (runSchedule cycleTicks
     (checkSchedule bridgeEnv ((initApp 256)\<lparr>schedule := weekdaySchedule\<rparr>)) ! 5) = 28800000 \<and>
   sum_list (map slotDuration (runSchedule cycleTicks
     (checkSchedule bridgeEnv ((initApp 256)\<lparr>schedule := weekdaySchedule\<rparr>)))) = 86400 * 1000"
proof -
  let ?st = "(initApp 256)\<lparr>schedule := weekdaySchedule\<rparr>"
  have h1: "timeSynchronized bridgeEnv"
    by (simp add: bridgeEnv_def)
  have h2: "currentSlot ?st < 0"
    by (simp add: initApp_def)
  have h3: "\<forall>i<5. schedule ?st i SECS_COL \<le> schedule ?st (i + 1) SECS_COL"
    using weekday_hyps(1) by simp
  have h4: "\<forall>i<6. 0 \<le> schedule ?st i SECS_COL \<and> schedule ?st i SECS_COL \<le> 86399"
    using weekday_hyps(2) by simp
  have h5: "0 \<le> currentSecs bridgeEnv \<and> currentSecs bridgeEnv \<le> 86399"
    by (simp add: bridgeEnv_def)
  have h6: "length cycleTicks = 6"
    by (simp add: cycleTicks_def)
  note r = schedule_cycle [OF h1 h2 h3 h4 h5 h6 weekday_advances]
  have five: "currentSlot (checkSchedule bridgeEnv ?st) = 5"
    by (rule weekday_first)
  have "slotInForce (\<lambda>i. schedule ?st i SECS_COL) (currentSecs bridgeEnv) 5"
    using r five by simp
  then have a: "slotInForce (\<lambda>i. weekdaySchedule i SECS_COL) 82800 5"
    by (simp add: bridgeEnv_def)
  have v: "\<forall>j<6. currentSlot (runSchedule cycleTicks (checkSchedule bridgeEnv ?st) ! j) =
                    (5 + 1 + int j) mod 6 \<and>
                 slotDuration (runSchedule cycleTicks (checkSchedule bridgeEnv ?st) ! j) =
                    slotGap (\<lambda>i. weekdaySchedule i SECS_COL) (nat ((5 + 1 + int j) mod 6)) * 1000"
    using r unfolding five by simp
  have b: "currentSlot (runSchedule cycleTicks (checkSchedule bridgeEnv ?st) ! 0) = 0"
    "slotDuration (runSchedule cycleTicks (checkSchedule bridgeEnv ?st) ! 0) = 9000000"
    using v [rule_format, of 0] by (simp_all add: slotGap_def weekdaySchedule_def SECS_COL_def)
  have c: "currentSlot (runSchedule cycleTicks (checkSchedule bridgeEnv ?st) ! 5) = 5"
    "slotDuration (runSchedule cycleTicks (checkSchedule bridgeEnv ?st) ! 5) = 28800000"
    using v [rule_format, of 5] by (simp_all add: slotGap_def weekdaySchedule_def SECS_COL_def)
  have d: "sum_list (map slotDuration (runSchedule cycleTicks (checkSchedule bridgeEnv ?st))) =
      86400 * 1000"
    using r by simp
  show ?thesis
    using five a b c d by simp
qed

section \<open>Printing a number and reading it back\<close>

lemma digit_chr_props:
  assumes "d < 10"
  shows "isdigit (digit_chr d)" and "digit_val (digit_chr d) = d"
    and "\<not> isspace (digit_chr d)" and "digit_chr d \<noteq> CHR ''-''" and "digit_chr d \<noteq> CHR ''+''"
proof -
  have "d = 0 \<or> d = 1 \<or> d = 2 \<or> d = 3 \<or> d = 4 \<or> d = 5 \<or> d = 6 \<or> d = 7 \<or> d = 8 \<or> d = 9"
    using assms by arith
  then show "isdigit (digit_chr d)" and "digit_val (digit_chr d) = d"
    and "\<not> isspace (digit_chr d)" and "digit_chr d \<noteq> CHR ''-''" and "digit_chr d \<noteq> CHR ''+''"
    by (auto simp add: digit_chr_def isdigit_def digit_val_def isspace_def)
qed

lemma show_nat_hd: "\<exists>d r. d < 10 \<and> show_nat n = digit_chr d # r"
proof (induction n rule: show_nat.induct)
  case (1 n)
  show ?case
  proof (cases "n < 10")
    case True
    then show ?thesis
      by (auto simp add: show_nat.simps [of n])
  next
    case False
    then obtain d r where "d < 10" "show_nat (n div 10) = digit_chr d # r"
      using 1 by blast
    then show ?thesis
      using False by (auto simp add: show_nat.simps [of n])
  qed
qed

lemma parse_digits_show_nat:
  "parse_digits acc (show_nat n @ rest) =
   parse_digits (acc * 10 ^ length (show_nat n) + n) rest"
proof (induction n arbitrary: acc rest rule: show_nat.induct)
  case (1 n)
  show ?case
  proof (cases "n < 10")
    case True
    then show ?thesis
      by (simp add: show_nat.simps [of n] digit_chr_props)
  next
    case False
    have m: "n mod 10 < 10" by simp
    have "parse_digits acc (show_nat n @ rest) =
        parse_digits acc (show_nat (n div 10) @ digit_chr (n mod 10) # rest)"
      using False by (simp add: show_nat.simps [of n])
    also have "\<dots> = parse_digits (acc * 10 ^ length (show_nat (n div 10)) + n div 10)
        (digit_chr (n mod 10) # rest)"
      using False by (rule "1.IH")
    also have "\<dots> = parse_digits
        ((acc * 10 ^ length (show_nat (n div 10)) + n div 10) * 10 + n mod 10) rest"
      by (simp add: digit_chr_props [OF m])
    also have "(acc * 10 ^ length (show_nat (n div 10)) + n div 10) * 10 + n mod 10 =
        acc * 10 ^ length (show_nat n) + n"
      using False by (simp add: show_nat.simps [of n] algebra_simps)
    finally show ?thesis .
  qed
qed

lemma parse_digits_stop:
  "rest = [] \<or> \<not> isdigit (hd rest) \<Longrightarrow> parse_digits acc rest = (acc, rest)"
  by (cases rest) simp_all

text \<open>
  \<^verbatim>\<open>strtol\<close> reads back what \<^verbatim>\<open>%d\<close> printed, after white space and up to a character that
  is not a digit.
\<close>

lemma strtol_show_int:
  assumes v: "LONG_MIN \<le> v" "v \<le> LONG_MAX" and ws: "\<forall>c\<in>set ws. isspace c"
    and rest: "rest = [] \<or> \<not> isdigit (hd rest)"
  shows "strtol (ws @ show_int v @ rest) = (v, rest)"
proof -
  obtain d r where d: "d < 10" "show_nat (nat \<bar>v\<bar>) = digit_chr d # r"
    using show_nat_hd by blast
  have pd: "parse_digits 0 (show_nat (nat \<bar>v\<bar>) @ rest) = (nat \<bar>v\<bar>, rest)"
    by (simp add: parse_digits_show_nat parse_digits_stop [OF rest])
  have dw: "dropWhile isspace (ws @ x # xs) = x # xs" if "\<not> isspace x" for x xs
    using ws that by (simp add: dropWhile_append3)
  show ?thesis
  proof (cases "v < 0")
    case True
    have s: "show_int v = CHR ''-'' # show_nat (nat \<bar>v\<bar>)"
      using True by (simp add: show_int_def abs_if)
    have sp: "\<not> isspace CHR ''-''"
      by (simp add: isspace_def)
    have "dropWhile isspace (ws @ show_int v @ rest) = CHR ''-'' # show_nat (nat \<bar>v\<bar>) @ rest"
      unfolding s using dw [OF sp] by simp
    then show ?thesis
      using pd d True v
      by (simp add: strtol_def parse_sign_def digit_chr_props [OF d(1)] abs_if)
  next
    case False
    have s: "show_int v = show_nat (nat \<bar>v\<bar>)"
      using False by (simp add: show_int_def abs_if)
    have "dropWhile isspace (ws @ show_int v @ rest) = show_nat (nat \<bar>v\<bar>) @ rest"
      unfolding s d(2) using dw [OF digit_chr_props(3) [OF d(1)]] by simp
    then show ?thesis
      using pd d False v
      by (simp add: strtol_def parse_sign_def digit_chr_props [OF d(1)] abs_if)
  qed
qed

lemma show_int_ne: "show_int v \<noteq> []"
  using show_nat_hd [of "nat (- v)"] show_nat_hd [of "nat v"]
  by (auto simp add: show_int_def)

lemma atoi_show_int:
  "LONG_MIN \<le> v \<Longrightarrow> v \<le> LONG_MAX \<Longrightarrow> atoi (show_int v) = v"
  using strtol_show_int [of v "[]" "[]"] by (simp add: atoi_def)

lemma getNumber_show_int:
  assumes "LONG_MIN \<le> v" and "v \<le> LONG_MAX" and "rest = [] \<or> \<not> isdigit (hd rest)"
  shows "getNumber (CHR '' '' # show_int v @ rest) = (v, rest)"
proof -
  have "strtol ([CHR '' ''] @ show_int v @ rest) = (v, rest)"
    using assms by (intro strtol_show_int) (simp_all add: isspace_def)
  moreover have "rest \<noteq> CHR '' '' # show_int v @ rest"
  proof
    assume "rest = CHR '' '' # show_int v @ rest"
    then have "length rest = length (CHR '' '' # show_int v @ rest)" by simp
    then show False by simp
  qed
  ultimately show ?thesis
    by (simp add: getNumber_def)
qed

lemma to_signed_range: "LONG_MIN \<le> to_signed 32 x \<and> to_signed 32 x \<le> LONG_MAX"
proof -
  have "0 \<le> (x + 2 ^ 31) mod 2 ^ 32" "(x + 2 ^ 31) mod 2 ^ 32 < (2 ^ 32 :: int)"
    by simp_all
  then show ?thesis
    by (simp add: to_signed_def LONG_MIN_def LONG_MAX_def)
qed

section \<open>Rounding to a binary format is monotone\<close>

lemma binDigits_bounds:
  "0 < n \<Longrightarrow> 2 ^ (binDigits n - 1) \<le> n \<and> n < 2 ^ binDigits n"
proof (induction n rule: binDigits.induct)
  case (1 n)
  show ?case
  proof (cases "n div 2 = 0")
    case True
    then have n1: "n = Suc 0" using "1.prems" by arith
    have "binDigits (Suc 0) = Suc 0"
      by (simp add: binDigits.simps [of "Suc 0"] binDigits.simps [of 0])
    then show ?thesis
      unfolding n1 by simp
  next
    case False
    then have pos: "0 < n div 2" by simp
    have n0: "n \<noteq> 0" using "1.prems" by simp
    have ih: "2 ^ (binDigits (n div 2) - 1) \<le> n div 2" "n div 2 < 2 ^ binDigits (n div 2)"
      using "1.IH" [OF n0 pos] by simp_all
    have bd: "binDigits n = Suc (binDigits (n div 2))"
      using n0 by (simp add: binDigits.simps [of n])
    have d1: "0 < binDigits (n div 2)"
      using pos by (simp add: binDigits.simps [of "n div 2"])
    then have e: "binDigits n - 1 = Suc (binDigits (n div 2) - 1)"
      using bd by simp
    have "2 * 2 ^ (binDigits (n div 2) - 1) \<le> 2 * (n div 2)"
      using ih(1) by simp
    also have "\<dots> \<le> n" by simp
    finally have lo: "2 ^ (binDigits n - 1) \<le> n"
      unfolding e by simp
    have "n div 2 + 1 \<le> 2 ^ binDigits (n div 2)"
      using ih(2) by simp
    then have "2 * (n div 2) + 2 \<le> 2 * 2 ^ binDigits (n div 2)"
      by simp
    moreover have "n < 2 * (n div 2) + 2" by arith
    ultimately have hi: "n < 2 ^ binDigits n"
      unfolding bd by simp
    show ?thesis using lo hi by simp
  qed
qed

lemma pow2_powr: "pow2 k = 2 powr (real_of_int k)"
proof (cases "0 \<le> k")
  case True
  then have h: "real_of_int k = real (nat k)" by simp
  have "pow2 k = 2 ^ nat k"
    using True by (simp add: pow2_def)
  also have "\<dots> = 2 powr real (nat k)"
    by (simp add: powr_realpow)
  finally show ?thesis
    unfolding h .
next
  case False
  then have h: "real_of_int k = - real (nat (- k))" by simp
  have "pow2 k = 1 / 2 ^ nat (- k)"
    using False by (simp add: pow2_def)
  also have "\<dots> = 1 / 2 powr real (nat (- k))"
    by (simp add: powr_realpow)
  also have "\<dots> = 2 powr (- real (nat (- k)))"
    by (simp add: powr_minus inverse_eq_divide)
  finally show ?thesis
    unfolding h .
qed

lemma pow2_pos: "0 < pow2 k"
  by (simp add: pow2_powr)

lemma pow2_mono: "a \<le> b \<Longrightarrow> pow2 a \<le> pow2 b"
  by (simp add: pow2_powr)

lemma pow2_add: "pow2 (a + b) = pow2 a * pow2 b"
  by (simp add: pow2_powr powr_add)

lemma pow2_nat: "pow2 (int n) = 2 ^ n"
  by (simp add: pow2_def)

lemma real_of_nat_pow2:
  "(2 :: nat) ^ a \<le> n \<Longrightarrow> (2 :: real) ^ a \<le> real n"
  "n < (2 :: nat) ^ a \<Longrightarrow> real n < 2 ^ a"
  "n \<le> (2 :: nat) ^ a \<Longrightarrow> real n \<le> 2 ^ a"
proof -
  have e: "real (2 ^ a) = 2 ^ a" by simp
  show "(2 :: real) ^ a \<le> real n" if "(2 :: nat) ^ a \<le> n"
    using of_nat_mono [OF that, where 'a = real] unfolding e .
  show "real n < 2 ^ a" if "n < (2 :: nat) ^ a"
    using of_nat_less_iff [where 'a = real, THEN iffD2, OF that] unfolding e .
  show "real n \<le> 2 ^ a" if "n \<le> (2 :: nat) ^ a"
    using of_nat_mono [OF that, where 'a = real] unfolding e .
qed

lemma real_of_int_pow2:
  "real_of_int z \<le> 2 ^ a \<Longrightarrow> z \<le> 2 ^ a"
  "z \<le> 2 ^ a \<Longrightarrow> real_of_int z \<le> 2 ^ a"
  "(2 :: int) ^ a \<le> z \<Longrightarrow> 2 ^ a \<le> real_of_int z"
proof -
  have e: "real_of_int (2 ^ a) = 2 ^ a" by simp
  show "z \<le> 2 ^ a" if "real_of_int z \<le> 2 ^ a"
    using that unfolding e [symmetric] by (simp only: of_int_le_iff)
  show "real_of_int z \<le> 2 ^ a" if "z \<le> 2 ^ a"
    using of_int_le_iff [where 'a = real, THEN iffD2, OF that] unfolding e .
  show "2 ^ a \<le> real_of_int z" if "(2 :: int) ^ a \<le> z"
    using of_int_le_iff [where 'a = real, THEN iffD2, OF that] unfolding e .
qed

lemma binExp_bounds:
  assumes "0 < x"
  shows "pow2 (binExp x) \<le> x" and "x < pow2 (binExp x + 1)"
proof -
  show "pow2 (binExp x) \<le> x"
  proof (cases "1 \<le> x")
    case True
    let ?n = "nat \<lfloor>x\<rfloor>"
    have n: "0 < ?n" using True by simp
    have d: "0 < binDigits ?n"
      using n by (simp add: binDigits.simps [of ?n])
    have "pow2 (binExp x) = 2 ^ (binDigits ?n - 1)"
      using True d by (simp add: binExp_def pow2_def nat_diff_distrib)
    also have "\<dots> \<le> real ?n"
      using binDigits_bounds [OF n] by (intro real_of_nat_pow2(1)) (rule conjunct1)
    also have "\<dots> \<le> x"
      using True by simp
    finally show ?thesis .
  next
    case False
    let ?y = "1 / x"
    let ?m = "nat (\<lceil>?y\<rceil> - 1)"
    let ?k = "binDigits ?m"
    have y: "1 < ?y" using False assms by simp
    then have c: "2 \<le> \<lceil>?y\<rceil>" by linarith
    then have m: "0 < ?m" by simp
    have "?m < 2 ^ ?k"
      using binDigits_bounds [OF m] by (rule conjunct2)
    then have "real ?m < 2 ^ ?k"
      by (rule real_of_nat_pow2(2))
    moreover have "real ?m = real_of_int \<lceil>?y\<rceil> - 1"
    proof -
      have "0 \<le> \<lceil>?y\<rceil> - 1" using c by linarith
      then have "real (nat (\<lceil>?y\<rceil> - 1)) = real_of_int (\<lceil>?y\<rceil> - 1)"
        by (rule of_nat_nat)
      then show ?thesis by simp
    qed
    ultimately have "real_of_int (\<lceil>?y\<rceil> - 1) < real_of_int (2 ^ ?k)"
      by simp
    then have "\<lceil>?y\<rceil> - 1 < 2 ^ ?k"
      by (simp only: of_int_less_iff)
    then have "\<lceil>?y\<rceil> \<le> 2 ^ ?k" by linarith
    then have "real_of_int \<lceil>?y\<rceil> \<le> 2 ^ ?k"
      by (rule real_of_int_pow2(2))
    moreover have "?y \<le> real_of_int \<lceil>?y\<rceil>"
      by (rule le_of_int_ceiling)
    ultimately have "?y \<le> 2 ^ ?k"
      by (rule order_trans [rotated])
    then have "1 / 2 ^ ?k \<le> x"
      using assms by (simp add: field_simps)
    moreover have "0 < ?k"
      using m by (simp add: binDigits.simps [of ?m])
    ultimately show ?thesis
      using False by (simp add: binExp_def pow2_def)
  qed
  show "x < pow2 (binExp x + 1)"
  proof (cases "1 \<le> x")
    case True
    let ?n = "nat \<lfloor>x\<rfloor>"
    have n: "0 < ?n" using True by simp
    have "?n < 2 ^ binDigits ?n"
      using binDigits_bounds [OF n] by (rule conjunct2)
    then have "?n + 1 \<le> 2 ^ binDigits ?n"
      by linarith
    then have "real (?n + 1) \<le> 2 ^ binDigits ?n"
      by (rule real_of_nat_pow2(3))
    moreover have "x < real (?n + 1)"
      using True by simp linarith
    ultimately have "x < 2 ^ binDigits ?n" by simp
    then show ?thesis
      using True by (simp add: binExp_def pow2_def)
  next
    case False
    let ?y = "1 / x"
    let ?m = "nat (\<lceil>?y\<rceil> - 1)"
    let ?k = "binDigits ?m"
    have y: "1 < ?y" using False assms by simp
    then have c: "2 \<le> \<lceil>?y\<rceil>" by linarith
    then have m: "0 < ?m" by simp
    have k: "0 < ?k"
      using m by (simp add: binDigits.simps [of ?m])
    have "2 ^ (?k - 1) \<le> ?m"
      using binDigits_bounds [OF m] by (rule conjunct1)
    then have "2 ^ (?k - 1) \<le> real ?m"
      by (rule real_of_nat_pow2(1))
    moreover have "real ?m = real_of_int \<lceil>?y\<rceil> - 1"
    proof -
      have "0 \<le> \<lceil>?y\<rceil> - 1" using c by linarith
      then have "real (nat (\<lceil>?y\<rceil> - 1)) = real_of_int (\<lceil>?y\<rceil> - 1)"
        by (rule of_nat_nat)
      then show ?thesis by simp
    qed
    moreover have "real_of_int \<lceil>?y\<rceil> - 1 < ?y"
      by linarith
    ultimately have "2 ^ (?k - 1) < ?y" by simp
    then have "x < 1 / 2 ^ (?k - 1)"
      using assms by (simp add: field_simps)
    moreover have "pow2 (binExp x + 1) = 1 / 2 ^ (?k - 1)"
    proof (cases "?k = 1")
      case True
      then show ?thesis using False by (simp add: binExp_def pow2_def)
    next
      case k1: False
      then have "nat (int ?k - 1) = ?k - 1" "\<not> int ?k \<le> 1"
        using k by simp_all
      then show ?thesis
        using False by (simp add: binExp_def pow2_def)
    qed
    ultimately show ?thesis by simp
  qed
qed

lemma binExp_mono:
  assumes "0 < x" and "x \<le> y"
  shows "binExp x \<le> binExp y"
proof (rule ccontr)
  assume "\<not> binExp x \<le> binExp y"
  then have "binExp y + 1 \<le> binExp x" by simp
  then have "pow2 (binExp y + 1) \<le> pow2 (binExp x)"
    by (rule pow2_mono)
  moreover have "y < pow2 (binExp y + 1)"
    using assms by (intro binExp_bounds) simp
  moreover have "pow2 (binExp x) \<le> x"
    using assms(1) by (rule binExp_bounds)
  ultimately show False
    using assms(2) by simp
qed

lemma round_half_even_int: "round_half_even (of_int n) = n"
  by (simp add: round_half_even_def)

lemma round_half_even_mono:
  assumes "x \<le> y"
  shows "round_half_even x \<le> round_half_even y"
proof (cases "\<lfloor>x\<rfloor> = \<lfloor>y\<rfloor>")
  case True
  then show ?thesis
    using assms by (auto simp add: round_half_even_def Let_def)
next
  case False
  then have "\<lfloor>x\<rfloor> + 1 \<le> \<lfloor>y\<rfloor>"
    using floor_mono [OF assms] by simp
  moreover have "round_half_even x \<le> \<lfloor>x\<rfloor> + 1"
    by (simp add: round_half_even_def Let_def)
  moreover have "\<lfloor>y\<rfloor> \<le> round_half_even y"
    by (simp add: round_half_even_def Let_def)
  ultimately show ?thesis by simp
qed

lemma round_half_even_minus: "round_half_even (- x) = - round_half_even x"
proof (cases "x = of_int \<lfloor>x\<rfloor>")
  case True
  then have "round_half_even x = \<lfloor>x\<rfloor>" "round_half_even (- x) = - \<lfloor>x\<rfloor>"
    using round_half_even_int [of "\<lfloor>x\<rfloor>"] round_half_even_int [of "- \<lfloor>x\<rfloor>"] by simp_all
  then show ?thesis by simp
next
  case False
  then have lt: "of_int \<lfloor>x\<rfloor> < x" by linarith
  have f: "\<lfloor>- x\<rfloor> = - \<lfloor>x\<rfloor> - 1"
    using lt by (intro floor_unique) (simp_all, linarith)
  have d: "- x - of_int \<lfloor>- x\<rfloor> = 1 - (x - of_int \<lfloor>x\<rfloor>)"
    unfolding f by simp
  show ?thesis
    unfolding round_half_even_def Let_def d
    unfolding f
    by auto
qed

text \<open>The rounding is odd, keeps the sign, and is monotone.\<close>

lemma roundBinary_minus: "roundBinary p emin (- x) = - roundBinary p emin x"
  by (simp add: roundBinary_def Let_def round_half_even_minus)

lemma roundBinary_nonneg:
  assumes "0 \<le> x"
  shows "0 \<le> roundBinary p emin x"
proof (cases "x = 0")
  case True
  then show ?thesis by (simp add: roundBinary_def)
next
  case False
  let ?u = "pow2 (max (binExp \<bar>x\<bar>) emin - int p + 1)"
  have "0 \<le> x / ?u"
    using assms pow2_pos [of "max (binExp \<bar>x\<bar>) emin - int p + 1"] by simp
  then have "round_half_even 0 \<le> round_half_even (x / ?u)"
    by (rule round_half_even_mono)
  then have "0 \<le> round_half_even (x / ?u)"
    using round_half_even_int [of 0] by simp
  then show ?thesis
    using False pow2_pos [of "max (binExp \<bar>x\<bar>) emin - int p + 1"]
    by (simp add: roundBinary_def Let_def)
qed

lemma roundBinary_mono_pos:
  assumes p: "0 < p" and x: "0 < x" and xy: "x \<le> y"
  shows "roundBinary p emin x \<le> roundBinary p emin y"
proof -
  let ?ex = "max (binExp x) emin"
  let ?ey = "max (binExp y) emin"
  let ?ux = "pow2 (?ex - int p + 1)"
  let ?uy = "pow2 (?ey - int p + 1)"
  have y: "0 < y" using x xy by simp
  have rx: "roundBinary p emin x = of_int (round_half_even (x / ?ux)) * ?ux"
    using x by (simp add: roundBinary_def Let_def)
  have ry: "roundBinary p emin y = of_int (round_half_even (y / ?uy)) * ?uy"
    using y by (simp add: roundBinary_def Let_def)
  have le: "?ex \<le> ?ey"
    using binExp_mono [OF x xy] by simp
  show ?thesis
  proof (cases "?ex = ?ey")
    case True
    have "x / ?ux \<le> y / ?ux"
      using xy pow2_pos [of "?ex - int p + 1"] by (simp add: divide_right_mono)
    then have "round_half_even (x / ?ux) \<le> round_half_even (y / ?ux)"
      by (rule round_half_even_mono)
    then have "of_int (round_half_even (x / ?ux)) * ?ux \<le> of_int (round_half_even (y / ?ux)) * ?ux"
      using pow2_pos [of "?ex - int p + 1"] by (simp add: mult_right_mono)
    then show ?thesis
      unfolding rx ry True .
  next
    case False
    then have lt: "?ex < ?ey" using le by linarith
    then have ey: "?ey = binExp y" by linarith
    have upx: "pow2 (?ex + 1) = 2 ^ p * ?ux"
    proof -
      have "?ex + 1 = int p + (?ex - int p + 1)" by simp
      then have "pow2 (?ex + 1) = pow2 (int p) * ?ux"
        by (simp only: pow2_add [symmetric])
      then show ?thesis by (simp add: pow2_nat)
    qed
    have loy: "pow2 ?ey = 2 ^ (p - 1) * ?uy"
    proof -
      have "?ey = int (p - 1) + (?ey - int p + 1)" using p by simp
      then have "pow2 ?ey = pow2 (int (p - 1)) * ?uy"
        by (simp only: pow2_add [symmetric])
      then show ?thesis by (simp add: pow2_nat)
    qed
    have "x < pow2 (binExp x + 1)"
      using x by (rule binExp_bounds)
    also have "\<dots> \<le> pow2 (?ex + 1)"
      by (rule pow2_mono) simp
    finally have "x \<le> 2 ^ p * ?ux"
      unfolding upx by simp
    then have "x / ?ux \<le> 2 ^ p"
      using pow2_pos [of "?ex - int p + 1"] by (simp add: field_simps)
    then have "round_half_even (x / ?ux) \<le> round_half_even (of_int (2 ^ p))"
      by (intro round_half_even_mono) simp
    then have "round_half_even (x / ?ux) \<le> 2 ^ p"
      unfolding round_half_even_int .
    then have "real_of_int (round_half_even (x / ?ux)) \<le> 2 ^ p"
      by (rule real_of_int_pow2(2))
    then have "of_int (round_half_even (x / ?ux)) * ?ux \<le> 2 ^ p * ?ux"
      using pow2_pos [of "?ex - int p + 1"] by (simp add: mult_right_mono)
    then have a: "roundBinary p emin x \<le> pow2 (?ex + 1)"
      unfolding rx upx .
    have b: "pow2 (?ex + 1) \<le> pow2 ?ey"
      using lt by (intro pow2_mono) linarith
    have "pow2 ?ey \<le> y"
      unfolding ey using y by (rule binExp_bounds)
    then have "2 ^ (p - 1) * ?uy \<le> y"
      unfolding loy .
    then have "2 ^ (p - 1) \<le> y / ?uy"
      using pow2_pos [of "?ey - int p + 1"] by (simp add: field_simps)
    then have "round_half_even (of_int (2 ^ (p - 1))) \<le> round_half_even (y / ?uy)"
      by (intro round_half_even_mono) simp
    then have "2 ^ (p - 1) \<le> round_half_even (y / ?uy)"
      unfolding round_half_even_int .
    then have "2 ^ (p - 1) \<le> real_of_int (round_half_even (y / ?uy))"
      by (rule real_of_int_pow2(3))
    then have "2 ^ (p - 1) * ?uy \<le> of_int (round_half_even (y / ?uy)) * ?uy"
      using pow2_pos [of "?ey - int p + 1"] by (simp add: mult_right_mono)
    then have c: "pow2 ?ey \<le> roundBinary p emin y"
      unfolding ry loy .
    show ?thesis
      using a b c by simp
  qed
qed

lemma roundBinary_mono:
  assumes "0 < p" and "x \<le> y"
  shows "roundBinary p emin x \<le> roundBinary p emin y"
proof -
  consider "0 < x" | "x \<le> 0" "0 \<le> y" | "y < 0"
    using assms(2) by linarith
  then show ?thesis
  proof cases
    case 1
    then show ?thesis using assms by (intro roundBinary_mono_pos)
  next
    case 2
    have "0 \<le> roundBinary p emin (- x)"
      using 2(1) by (intro roundBinary_nonneg) simp
    then have "roundBinary p emin x \<le> 0"
      by (simp add: roundBinary_minus)
    moreover have "0 \<le> roundBinary p emin y"
      using 2(2) by (rule roundBinary_nonneg)
    ultimately show ?thesis by simp
  next
    case 3
    have "roundBinary p emin (- y) \<le> roundBinary p emin (- x)"
      using assms 3 by (intro roundBinary_mono_pos) simp_all
    then show ?thesis
      by (simp add: roundBinary_minus)
  qed
qed

lemma to_float_mono: "x \<le> y \<Longrightarrow> to_float x \<le> to_float y"
  unfolding to_float_def by (rule roundBinary_mono) simp

section \<open>The ESP controller\<close>

lemma getNumber_fixed:
  "getNumber (CHR '' '' # CHR ''6'' # CHR '' '' # r) = (6, CHR '' '' # r)"
  "getNumber (CHR '' '' # CHR ''2'' # CHR ''0'' # CHR '' '' # r) = (20, CHR '' '' # r)"
  "getNumber (CHR '' '' # CHR ''2'' # CHR '' '' # r) = (2, CHR '' '' # r)"
proof -
  have sp: "CHR '' '' # r = [] \<or> \<not> isdigit (hd (CHR '' '' # r))"
    by (simp add: isdigit_def)
  have s: "show_int 6 = ''6''" "show_int 20 = ''20''" "show_int 2 = ''2''"
    by code_simp+
  show "getNumber (CHR '' '' # CHR ''6'' # CHR '' '' # r) = (6, CHR '' '' # r)"
    using getNumber_show_int [OF _ _ sp, of 6] by (simp add: s LONG_MIN_def LONG_MAX_def)
  show "getNumber (CHR '' '' # CHR ''2'' # CHR ''0'' # CHR '' '' # r) = (20, CHR '' '' # r)"
    using getNumber_show_int [OF _ _ sp, of 20] by (simp add: s LONG_MIN_def LONG_MAX_def)
  show "getNumber (CHR '' '' # CHR ''2'' # CHR '' '' # r) = (2, CHR '' '' # r)"
    using getNumber_show_int [OF _ _ sp, of 2] by (simp add: s LONG_MIN_def LONG_MAX_def)
qed

lemma getNumber_last:
  "LONG_MIN \<le> v \<Longrightarrow> v \<le> LONG_MAX \<Longrightarrow> getNumber (CHR '' '' # show_int v) = (v, [])"
  using getNumber_show_int [of v "[]"] by simp

lemma parse_cal:
  assumes "LONG_MIN \<le> v" and "v \<le> LONG_MAX"
  shows "parseTuyaMsg ('' 6 20 2 '' @ show_int v) c =
     (True, 13, c(3 := 6, 6 := 20, 7 := 2, 13 := word_of_int v,
                  12 := word_of_int (v div 2 ^ 8), 11 := word_of_int (v div 2 ^ 16),
                  10 := word_of_int (v div 2 ^ 24)))"
  by (simp add: parseTuyaMsg_def getNumber_fixed getNumber_last [OF assms] dataPart_Nil)

lemma derive_cal:
  "deriveTuyaMsg 0 True 13 (c(3 := 6, 6 := dp, 7 := 2, 13 := b0, 12 := b1, 11 := b2, 10 := b3))
   = [0x55, 0xaa, 0, 6, 0, 8, dp, 2, 0, 4, b3, b2, b1, b0,
      sum_list [0x55, 0xaa, 0, 6, 0, 8, dp, 2, 0, 4, b3, b2, b1, b0]]"
  by (simp add: deriveTuyaMsg_def checksum_def upt_rec add.assoc)

lemma build_cal:
  assumes "14 < b" and "LONG_MIN \<le> v" and "v \<le> LONG_MAX"
  shows "buildTuyaMsg b c (''M 6 20 2 '' @ show_int v) = Inr (0, dpIntFrame 20 v)"
  using assms(1)
  by (simp add: buildTuyaMsg_def uartId_def parse_cal [OF assms(2,3), simplified] derive_cal
      dpIntFrame_def)

text \<open>
  The update \<open>espCal\<close> with the text of a 32-bit integer writes the frame that sets
  datapoint 20, the calibration of the MCU, to that integer.
\<close>

lemma espCal_frame:
  assumes "\<not> USE_SNIFFER e" and "configLoaded e" and "14 < BUFF_LEN e" and "slotCnt st < 16"
    and "LONG_MIN \<le> v" and "v \<le> LONG_MAX"
  shows "updateAppStatus e ''espCal'' (show_int v) st =
           st\<lparr>uartOut := uartOut st @ [(0, dpIntFrame 20 v)]\<rparr>"
  using assms(1,2,4)
  by (simp add: updateAppStatus_def atoi_show_int [OF assms(5,6)] TIME_SLOTS_def
      processTuyaMsg_def build_cal [OF assms(3,5,6), simplified])


lemma controlHeating_cases:
  assumes "\<not> USE_SNIFFER e" and "configLoaded e" and "14 < BUFF_LEN e" and "slotCnt st < 16"
  shows "controlHeating e mcuTemp st =
     (let calOn = to_float (baseCal st + to_float (of_int (drift st)));
          calOff = to_float (baseCal st - to_float (of_int (drift st)));
          floorTemp = to_float ((if heatingOn st then calOn else calOff) + mcuTemp);
          st1 = st\<lparr>currentTemp := smooth floorTemp (currentTemp st) (alpha st)\<rparr>
      in if heatingOn st
         then (if tgtTemp st < currentTemp st1
               then st1\<lparr>uartOut := uartOut st @
                      [(0, dpIntFrame 20 (to_signed 32 (trunc_real (to_float (calOn * 10)))))]\<rparr>
               else st1)
         else (if to_float (currentTemp st1 + backLash st) < tgtTemp st
               then st1\<lparr>uartOut := uartOut st @
                      [(0, dpIntFrame 20 (to_signed 32 (trunc_real (to_float (calOff * 10)))))]\<rparr>
               else st1))"
proof -
  have f: "updateAppStatus e ''espCal'' (show_int (to_signed 32 x)) (st\<lparr>currentTemp := c\<rparr>) =
      st\<lparr>currentTemp := c, uartOut := uartOut st @ [(0, dpIntFrame 20 (to_signed 32 x))]\<rparr>"
    for x c
    using espCal_frame [OF assms(1,2,3), of "st\<lparr>currentTemp := c\<rparr>" "to_signed 32 x"]
      assms(4) to_signed_range [of x]
    by simp
  show ?thesis
    by (simp add: controlHeating_def Let_def f)
qed

text \<open>
  C4. One temperature sample \<open>mcuTemp\<close> given to \<^verbatim>\<open>controlHeating\<close>, in bridge mode with the
  configuration loaded and no flush of the slot table due. The sums, differences and
  products are those of the program, of type \<^verbatim>\<open>float\<close>: \<open>calOff\<close> and \<open>calOn\<close> are
  \<^verbatim>\<open>baseCal - drift\<close> and \<^verbatim>\<open>baseCal + drift\<close>, and \<open>smoothed\<close> is the estimate after its
  update. With the heating off and \<^verbatim>\<open>smoothed + backLash < tgtTemp\<close>, exactly one frame is
  written to the MCU: it sets datapoint 20 to \<^verbatim>\<open>(int32_t)(calOff * 10)\<close>. With the heating on
  and \<^verbatim>\<open>smoothed > tgtTemp\<close>, exactly one frame is written: it sets datapoint 20 to
  \<^verbatim>\<open>(int32_t)(calOn * 10)\<close>. In every other case nothing is written; in particular nothing
  is written when \<open>tgtTemp - backLash \<le> smoothed \<le> tgtTemp\<close> holds of the exact numbers (for
  a target that is a value of type \<^verbatim>\<open>float\<close>, as every value the program stores is).
\<close>

theorem hysteresis:
  assumes "\<not> USE_SNIFFER e" and "configLoaded e" and "14 < BUFF_LEN e" and "slotCnt st < 16"
  shows
    "(let calOn = to_float (baseCal st + to_float (of_int (drift st)));
          calOff = to_float (baseCal st - to_float (of_int (drift st)));
          floorTemp = to_float ((if heatingOn st then calOn else calOff) + mcuTemp);
          smoothed = smooth floorTemp (currentTemp st) (alpha st);
          st' = controlHeating e mcuTemp st
      in currentTemp st' = smoothed \<and>
         (\<not> heatingOn st \<and> to_float (smoothed + backLash st) < tgtTemp st \<longrightarrow>
            uartOut st' = uartOut st @
              [(0, dpIntFrame 20 (to_signed 32 (trunc_real (to_float (calOff * 10)))))]) \<and>
         (heatingOn st \<and> tgtTemp st < smoothed \<longrightarrow>
            uartOut st' = uartOut st @
              [(0, dpIntFrame 20 (to_signed 32 (trunc_real (to_float (calOn * 10)))))]) \<and>
         (\<not> (\<not> heatingOn st \<and> to_float (smoothed + backLash st) < tgtTemp st) \<and>
          \<not> (heatingOn st \<and> tgtTemp st < smoothed) \<longrightarrow>
            uartOut st' = uartOut st) \<and>
         (to_float (tgtTemp st) = tgtTemp st \<and>
          tgtTemp st - backLash st \<le> smoothed \<and> smoothed \<le> tgtTemp st \<longrightarrow>
            uartOut st' = uartOut st))"
proof -
  define calOn where "calOn = to_float (baseCal st + to_float (of_int (drift st)))"
  define calOff where "calOff = to_float (baseCal st - to_float (of_int (drift st)))"
  define floorTemp where
    "floorTemp = to_float ((if heatingOn st then calOn else calOff) + mcuTemp)"
  define smoothed where "smoothed = smooth floorTemp (currentTemp st) (alpha st)"
  define st' where "st' = controlHeating e mcuTemp st"
  have run: "st' =
      (if heatingOn st
       then (if tgtTemp st < smoothed
             then st\<lparr>currentTemp := smoothed, uartOut := uartOut st @
                    [(0, dpIntFrame 20 (to_signed 32 (trunc_real (to_float (calOn * 10)))))]\<rparr>
             else st\<lparr>currentTemp := smoothed\<rparr>)
       else (if to_float (smoothed + backLash st) < tgtTemp st
             then st\<lparr>currentTemp := smoothed, uartOut := uartOut st @
                    [(0, dpIntFrame 20 (to_signed 32 (trunc_real (to_float (calOff * 10)))))]\<rparr>
             else st\<lparr>currentTemp := smoothed\<rparr>))"
    unfolding st'_def controlHeating_cases [OF assms] smoothed_def floorTemp_def calOn_def
      calOff_def
    by (simp add: Let_def)
  have a: "currentTemp st' = smoothed"
    unfolding run by simp
  have b: "\<not> heatingOn st \<and> to_float (smoothed + backLash st) < tgtTemp st \<longrightarrow>
      uartOut st' = uartOut st @
        [(0, dpIntFrame 20 (to_signed 32 (trunc_real (to_float (calOff * 10)))))]"
    unfolding run by simp
  have c: "heatingOn st \<and> tgtTemp st < smoothed \<longrightarrow>
      uartOut st' = uartOut st @
        [(0, dpIntFrame 20 (to_signed 32 (trunc_real (to_float (calOn * 10)))))]"
    unfolding run by simp
  have d: "\<not> (\<not> heatingOn st \<and> to_float (smoothed + backLash st) < tgtTemp st) \<and>
      \<not> (heatingOn st \<and> tgtTemp st < smoothed) \<longrightarrow> uartOut st' = uartOut st"
    unfolding run by simp
  have i: "to_float (tgtTemp st) = tgtTemp st \<and>
      tgtTemp st - backLash st \<le> smoothed \<and> smoothed \<le> tgtTemp st \<longrightarrow>
      uartOut st' = uartOut st"
  proof (intro impI, elim conjE)
    assume t: "to_float (tgtTemp st) = tgtTemp st"
      and lo: "tgtTemp st - backLash st \<le> smoothed" and hi: "smoothed \<le> tgtTemp st"
    have "tgtTemp st \<le> smoothed + backLash st"
      using lo by simp
    then have "to_float (tgtTemp st) \<le> to_float (smoothed + backLash st)"
      by (rule to_float_mono)
    then have "\<not> to_float (smoothed + backLash st) < tgtTemp st"
      unfolding t by simp
    moreover have "\<not> tgtTemp st < smoothed"
      using hi by simp
    ultimately show "uartOut st' = uartOut st"
      using d by blast
  qed
  have "currentTemp st' = smoothed \<and>
         (\<not> heatingOn st \<and> to_float (smoothed + backLash st) < tgtTemp st \<longrightarrow>
            uartOut st' = uartOut st @
              [(0, dpIntFrame 20 (to_signed 32 (trunc_real (to_float (calOff * 10)))))]) \<and>
         (heatingOn st \<and> tgtTemp st < smoothed \<longrightarrow>
            uartOut st' = uartOut st @
              [(0, dpIntFrame 20 (to_signed 32 (trunc_real (to_float (calOn * 10)))))]) \<and>
         (\<not> (\<not> heatingOn st \<and> to_float (smoothed + backLash st) < tgtTemp st) \<and>
          \<not> (heatingOn st \<and> tgtTemp st < smoothed) \<longrightarrow>
            uartOut st' = uartOut st) \<and>
         (to_float (tgtTemp st) = tgtTemp st \<and>
          tgtTemp st - backLash st \<le> smoothed \<and> smoothed \<le> tgtTemp st \<longrightarrow>
            uartOut st' = uartOut st)"
    by (intro conjI) (rule a b c d i)+
  then show ?thesis
    unfolding Let_def st'_def smoothed_def floorTemp_def calOn_def calOff_def .
qed


theorem hysteresis_witness:
  "uartOut (controlHeating bridgeEnv (to_float (to_double (184 / 10)))
      ((initApp 256)\<lparr>backLash := 1 / 2\<rparr>)) =
     [(0, [0x55, 0xaa, 0, 6, 0, 8, 0x14, 2, 0, 4, 0xff, 0xff, 0xff, 0xe2, 0x06])] \<and>
   uartOut (controlHeating bridgeEnv (to_float (to_double (219 / 10)))
      ((initApp 256)\<lparr>backLash := 1 / 2\<rparr>)) = []"
proof -
  let ?st = "(initApp 256)\<lparr>backLash := 1 / 2\<rparr>"
  have h: "\<not> USE_SNIFFER bridgeEnv" "configLoaded bridgeEnv" "14 < BUFF_LEN bridgeEnv"
    "slotCnt ?st < 16"
    by (simp_all add: bridgeEnv_def initApp_def)
  have st: "baseCal ?st = 0" "drift ?st = 3" "heatingOn ?st = False" "currentTemp ?st = 15"
    "alpha ?st = 1" "backLash ?st = 1 / 2" "tgtTemp ?st = 19" "uartOut ?st = []"
    by (simp_all add: initApp_def)
  have mcu: "to_float (to_double (92 / 5)) = 9646899 / 524288"
    "to_float (to_double (219 / 10)) = 11481907 / 524288"
    by (simp_all add: float_eval)
  have frame: "dpIntFrame 20 (- 30) =
      [0x55, 0xaa, 0, 6, 0, 8, 0x14, 2, 0, 4, 0xff, 0xff, 0xff, 0xe2, 0x06]"
    by (simp add: dpIntFrame_def)
  have a: "uartOut (controlHeating bridgeEnv (to_float (to_double (184 / 10))) ?st) =
      [(0, [0x55, 0xaa, 0, 6, 0, 8, 0x14, 2, 0, 4, 0xff, 0xff, 0xff, 0xe2, 0x06])]"
    using hysteresis [OF h, of "to_float (to_double (184 / 10))"]
    unfolding Let_def st
    by (simp add: mcu smooth_def float_eval trunc_real_def to_signed_def frame)
  have b: "uartOut (controlHeating bridgeEnv (to_float (to_double (219 / 10))) ?st) = []"
    using hysteresis [OF h, of "to_float (to_double (219 / 10))"]
    unfolding Let_def st
    by (simp add: mcu smooth_def float_eval)
  show ?thesis
    using a b by simp
qed

end
